theory Spec2Isabelle
  imports Main "HOL-Library.AList"
begin

section \<open>The OpenFlow East-West DVR agent (openflow\_ew\_dvr\_agent.py)\<close>

text \<open>
  A shallow embedding of class \<open>OFEWDVRAgent\<close>. Python dictionaries are association
  lists with distinct keys (the list order is the iteration order, which Python leaves
  unspecified); Python sets are duplicate-free lists. The attributes of \<open>self\<close> form
  the record \<open>agent\<close>; every method is a function from the agent to an outcome and
  the agent it leaves behind, so that the state at the moment an exception is raised
  is part of the result.
\<close>

subsection \<open>Topology data (the dictionaries returned by \<open>get_openflow_ew_dvrs\<close>)\<close>

record port =
  port_mac :: string
  port_ip :: string
  port_host :: "string option"
  port_name :: string

record subnet =
  cidr :: string
  gateway_mac :: string
  seg_id :: int
  ports :: "(string \<times> port) list"

type_synonym dvr = "(string \<times> subnet) list"

type_synonym routers = "(string \<times> dvr) list"

record dvr_mac =
  mac_host :: string
  mac_address :: string

subsection \<open>The bridge (flow backend) and the plugin RPC\<close>

text \<open>Keyword arguments of \<open>add_flow\<close> and \<open>delete_flows\<close>; an absent keyword is \<open>None\<close>.\<close>

record flow_kwargs =
  table :: "nat option"
  priority :: "nat option"
  dl_src :: "string option"
  dl_dst :: "string option"
  proto :: "string option"
  ip_dst :: "string option"
  actions :: "string option"

definition kw :: flow_kwargs where
  "kw = \<lparr>table = None, priority = None, dl_src = None, dl_dst = None,
          proto = None, ip_dst = None, actions = None\<rparr>"

datatype flow_op = AddFlow flow_kwargs | DeleteFlows flow_kwargs

datatype exn = FlowError | KeyError | RpcError

datatype outcome = Done | Raised exn

text \<open>
  A bridge records the flow operations it accepted, in order. \<open>budget\<close> is the number
  of further operations it will accept before one raises (\<open>None\<close>: it never raises);
  an exception of the backend is not caught anywhere in the agent, so the first failure
  of a tick is the only one that matters. \<open>ofports\<close> maps a port name to its ofport;
  a name that is not there resolves to \<open>INVALID_OFPORT\<close>.
\<close>

record bridge =
  flows :: "flow_op list"
  budget :: "nat option"
  ofports :: "(string \<times> int) list"

text \<open>Modelled from the spec: \<open>INVALID_OFPORT\<close> of \<open>neutron.agent.linux.ovs_lib\<close>,
  the value \<open>get_port_ofport\<close> returns for a port that is not attached (NotReady).\<close>

definition INVALID_OFPORT :: int where
  "INVALID_OFPORT = - 1"

definition OF_EW_DVR_DST :: nat where
  "OF_EW_DVR_DST = 1"

definition OF_EW_DVR_SRC :: nat where
  "OF_EW_DVR_SRC = 2"

definition br_issue :: "flow_op \<Rightarrow> bridge \<Rightarrow> outcome \<times> bridge" where
  "br_issue f br =
     (case budget br of
        None \<Rightarrow> (Done, br\<lparr>flows := flows br @ [f]\<rparr>)
      | Some 0 \<Rightarrow> (Raised FlowError, br)
      | Some (Suc n) \<Rightarrow> (Done, br\<lparr>flows := flows br @ [f], budget := Some n\<rparr>))"

definition get_port_ofport :: "bridge \<Rightarrow> string \<Rightarrow> int" where
  "get_port_ofport br nm = (case map_of (ofports br) nm of None \<Rightarrow> INVALID_OFPORT | Some n \<Rightarrow> n)"

datatype rpc_call = GetDvrMacAddressByHost | GetDvrMacAddressList | GetOpenflowEwDvrs

datatype 'a reply = Fails | Returns 'a

subsection \<open>The agent\<close>

record agent =
  plugin_rpc :: "rpc_call list"
  int_br :: bridge
  int_ofports :: string
  host :: "string option"
  sync_interval :: int
  dvr_mac_address :: "string option"
  registered_dvr_macs :: "string list"
  last_sync :: int
  registered_routers :: routers

subsection \<open>Statements in sequence, loops, exceptions\<close>

type_synonym 's act = "'s \<Rightarrow> outcome \<times> 's"

definition seq :: "'s act \<Rightarrow> 's act \<Rightarrow> 's act" where
  "seq f g s = (case f s of (Done, s') \<Rightarrow> g s' | (Raised e, s') \<Rightarrow> (Raised e, s'))"

definition skip :: "'s act" where
  "skip s = (Done, s)"

fun for_each :: "('x \<Rightarrow> 's act) \<Rightarrow> 'x list \<Rightarrow> 's act" where
  "for_each f [] s = (Done, s)"
| "for_each f (x # xs) s = seq (f x) (for_each f xs) s"

text \<open>A loop that pops entries from a local dictionary \<open>c\<close> carries it next to the
  agent; \<open>on_agent\<close> is a statement of its body that leaves the local alone,
  \<open>on_local\<close> one that changes the local only (a \<open>pop\<close>), and \<open>with_local\<close>
  runs the loop and hands the local to the statements after it. When the loop raises,
  the local is lost and the agent is kept.\<close>

definition on_agent :: "agent act \<Rightarrow> ('c \<times> agent) act" where
  "on_agent f = (\<lambda>(c, a). case f a of (r, a') \<Rightarrow> (r, (c, a')))"

definition on_local :: "('c \<Rightarrow> 'c) \<Rightarrow> ('c \<times> agent) act" where
  "on_local g = (\<lambda>(c, a). (Done, (g c, a)))"

definition with_local :: "'c \<Rightarrow> ('c \<times> agent) act \<Rightarrow> ('c \<Rightarrow> agent act) \<Rightarrow> agent act" where
  "with_local c body rest a =
     (case body (c, a) of
        (Raised e, (c', a')) \<Rightarrow> (Raised e, a')
      | (Done, (c', a')) \<Rightarrow> rest c' a')"

subsection \<open>Python values\<close>

text \<open>\<open>not x\<close> is false exactly for a non-empty string.\<close>

definition truthy :: "string option \<Rightarrow> bool" where
  "truthy m = (case m of None \<Rightarrow> False | Some s \<Rightarrow> s \<noteq> [])"

definition str_opt :: "string option \<Rightarrow> string" where
  "str_opt m = (case m of None \<Rightarrow> ''None'' | Some s \<Rightarrow> s)"

fun str_nat :: "nat \<Rightarrow> string" where
  "str_nat n =
     (if n < 10 then [''0123456789'' ! n]
      else str_nat (n div 10) @ [''0123456789'' ! (n mod 10)])"

declare str_nat.simps [simp del]

definition str_int :: "int \<Rightarrow> string" where
  "str_int i = (if i < 0 then ''-'' @ str_nat (nat (- i)) else str_nat (nat i))"

text \<open>Set difference \<open>xs - ys\<close> of two Python sets.\<close>

definition set_diff :: "'a list \<Rightarrow> 'a list \<Rightarrow> 'a list" where
  "set_diff xs ys = filter (\<lambda>x. x \<notin> set ys) xs"

definition dict_values :: "('k \<times> 'v) list \<Rightarrow> 'v list" where
  "dict_values d = map snd d"

definition dict_keys :: "('k \<times> 'v) list \<Rightarrow> 'k list" where
  "dict_keys d = map fst d"

subsection \<open>Flow operations on the integration bridge\<close>

definition int_add_flow :: "flow_kwargs \<Rightarrow> agent act" where
  "int_add_flow k a = (case br_issue (AddFlow k) (int_br a) of (r, br) \<Rightarrow> (r, a\<lparr>int_br := br\<rparr>))"

definition int_delete_flows :: "flow_kwargs \<Rightarrow> agent act" where
  "int_delete_flows k a =
     (case br_issue (DeleteFlows k) (int_br a) of (r, br) \<Rightarrow> (r, a\<lparr>int_br := br\<rparr>))"

definition resubmit :: "nat \<Rightarrow> string" where
  "resubmit t = ''resubmit(,'' @ str_nat t @ '')''"

subsection \<open>DVR MAC addresses\<close>

definition set_src_to_dvr :: "agent act" where
  "set_src_to_dvr a =
     (let actions = ''mod_dl_src:'' @ str_opt (dvr_mac_address a) @ '','' @ int_ofports a in
      if truthy (dvr_mac_address a)
      then int_add_flow (kw\<lparr>table := Some OF_EW_DVR_SRC, priority := Some 1,
                            actions := Some actions\<rparr>) a
      else (Done, a))"

text \<open>The reply is what \<open>get_dvr_mac_address_by_host\<close> does at this call; an
  exception is caught and leaves \<open>dvr_mac_address\<close> as it was.\<close>

definition get_dvr_mac_address :: "string reply \<Rightarrow> agent \<Rightarrow> agent" where
  "get_dvr_mac_address rep a =
     (let a' = a\<lparr>plugin_rpc := plugin_rpc a @ [GetDvrMacAddressByHost]\<rparr> in
      case rep of
        Fails \<Rightarrow> a'
      | Returns m \<Rightarrow> a'\<lparr>dvr_mac_address := Some m\<rparr>)"

definition registry_add :: "string \<Rightarrow> agent act" where
  "registry_add m a = (Done, a\<lparr>registered_dvr_macs := List.insert m (registered_dvr_macs a)\<rparr>)"

definition registry_remove :: "string \<Rightarrow> agent act" where
  "registry_remove m a =
     (if m \<in> set (registered_dvr_macs a)
      then (Done, a\<lparr>registered_dvr_macs := removeAll m (registered_dvr_macs a)\<rparr>)
      else (Raised KeyError, a))"

definition is_foreign :: "agent \<Rightarrow> dvr_mac \<Rightarrow> bool" where
  "is_foreign a m =
     (\<not> (Some (mac_address m) = dvr_mac_address a \<or> Some (mac_host m) = host a))"

definition setup_dvr_flows_on_integ_tun_br ::
    "string reply \<Rightarrow> dvr_mac list reply \<Rightarrow> agent act" where
  "setup_dvr_flows_on_integ_tun_br mac_rep list_rep a0 =
     (let a1 = a0\<lparr>dvr_mac_address := None, registered_dvr_macs := [],
                   last_sync := 0, registered_routers := []\<rparr>;
          a2 = get_dvr_mac_address mac_rep a1
      in seq set_src_to_dvr
           (\<lambda>a. let a' = a\<lparr>plugin_rpc := plugin_rpc a @ [GetDvrMacAddressList]\<rparr> in
              case list_rep of
                Fails \<Rightarrow> (Raised RpcError, a')
              | Returns dvr_macs \<Rightarrow>
                  seq (for_each
                         (\<lambda>m a. if is_foreign a m
                            then seq (int_add_flow
                                        (kw\<lparr>priority := Some 5, dl_src := Some (mac_address m),
                                            actions := Some (resubmit OF_EW_DVR_SRC)\<rparr>))
                                   (seq (int_add_flow
                                           (kw\<lparr>table := Some OF_EW_DVR_SRC, priority := Some 2,
                                               dl_src := Some (mac_address m),
                                               actions := Some ''drop''\<rparr>))
                                      (registry_add (mac_address m))) a
                            else (Done, a))
                         dvr_macs)
                    (int_add_flow (kw\<lparr>table := Some OF_EW_DVR_DST, priority := Some 1,
                                      actions := Some ''normal''\<rparr>)) a')
           a2)"

text \<open>\<open>dvr_mac_address_update\<close> (the name without suffix is the update function of
  the field \<open>dvr_mac_address\<close>).\<close>

definition dvr_mac_address_update_rpc :: "dvr_mac list \<Rightarrow> agent act" where
  "dvr_mac_address_update_rpc dvr_macs a =
     (if \<not> truthy (dvr_mac_address a) then (Done, a)
      else
        let dvr_host_macs = remdups (map mac_address (filter (is_foreign a) dvr_macs)) in
        if set dvr_host_macs = set (registered_dvr_macs a) then (Done, a)
        else
          let dvr_macs_added = set_diff dvr_host_macs (registered_dvr_macs a);
              dvr_macs_removed = set_diff (registered_dvr_macs a) dvr_host_macs
          in seq (for_each
                    (\<lambda>oldmac.
                       seq (int_delete_flows
                              (kw\<lparr>dl_src := Some oldmac,
                                  actions := Some (resubmit OF_EW_DVR_SRC)\<rparr>))
                         (seq (int_delete_flows
                                 (kw\<lparr>table := Some OF_EW_DVR_SRC, dl_src := Some oldmac,
                                     actions := Some ''drop''\<rparr>))
                            (registry_remove oldmac)))
                    dvr_macs_removed)
               (for_each
                  (\<lambda>newmac.
                     seq (int_add_flow
                            (kw\<lparr>priority := Some 5, dl_src := Some newmac,
                                actions := Some (resubmit OF_EW_DVR_SRC)\<rparr>))
                       (seq (int_add_flow
                               (kw\<lparr>table := Some OF_EW_DVR_SRC, priority := Some 2,
                                   dl_src := Some newmac, actions := Some ''drop''\<rparr>))
                          (registry_add newmac)))
                  dvr_macs_added) a)"

subsection \<open>Flows of the router topology\<close>

definition add_flows_to_other_subnets :: "string \<Rightarrow> string list \<Rightarrow> agent act" where
  "add_flows_to_other_subnets gw_mac cidrs a =
     (if \<not> truthy (dvr_mac_address a) then (Done, a)
      else for_each
             (\<lambda>c. int_add_flow
                     (kw\<lparr>priority := Some 2, dl_dst := Some gw_mac, proto := Some ''ip'',
                         ip_dst := Some c, actions := Some (resubmit OF_EW_DVR_DST)\<rparr>))
             cidrs a)"

definition del_flows_to_other_subnets :: "string \<Rightarrow> string list \<Rightarrow> agent act" where
  "del_flows_to_other_subnets gw_mac cidrs =
     for_each
       (\<lambda>c. int_delete_flows
               (kw\<lparr>dl_dst := Some gw_mac, proto := Some ''ip'', ip_dst := Some c\<rparr>))
       cidrs"

definition add_flows_to_port :: "string list \<Rightarrow> port \<Rightarrow> int \<Rightarrow> agent act" where
  "add_flows_to_port gateway_macs port seg a =
     (if \<not> truthy (dvr_mac_address a) then (Done, a)
      else
        let actions = ''mod_dl_dst:'' @ port_mac port @ '',mod_vlan_vid:'' @ str_int seg @
                      '','' @ resubmit OF_EW_DVR_SRC
        in for_each
             (\<lambda>g. int_add_flow
                     (kw\<lparr>table := Some OF_EW_DVR_DST, priority := Some 2, dl_dst := Some g,
                         proto := Some ''ip'', ip_dst := Some (port_ip port),
                         actions := Some actions\<rparr>))
             gateway_macs a)"

definition del_flows_to_port :: "string list \<Rightarrow> port \<Rightarrow> agent act" where
  "del_flows_to_port gateway_macs port =
     for_each
       (\<lambda>g. int_delete_flows
               (kw\<lparr>table := Some OF_EW_DVR_DST, dl_dst := Some g, proto := Some ''ip'',
                   ip_dst := Some (port_ip port)\<rparr>))
       gateway_macs"

text \<open>
  \<open>port['host'] = None\<close> writes to the port object itself, which is part of the router
  stored in \<open>registered_routers\<close> (\<open>_dvr_added\<close> and \<open>_dvr_updated\<close> store the new
  router before they walk through it). A port object is therefore passed as its path
  (router id, subnet id, port id) in \<open>registered_routers\<close> together with its value, and
  the assignment is an update of the store at that path.
\<close>

type_synonym port_ref = "string \<times> string \<times> string"

definition clear_port_host :: "port_ref \<Rightarrow> agent \<Rightarrow> agent" where
  "clear_port_host r a =
     (case r of (dvr_id, subnet_id, port_id) \<Rightarrow>
        a\<lparr>registered_routers :=
             AList.map_entry dvr_id
               (AList.map_entry subnet_id
                  (\<lambda>s. s\<lparr>ports := AList.map_entry port_id (\<lambda>p. p\<lparr>port_host := None\<rparr>) (ports s)\<rparr>))
               (registered_routers a)\<rparr>)"

definition add_flows_to_hosted_port :: "port_ref \<Rightarrow> port \<Rightarrow> string \<Rightarrow> agent act" where
  "add_flows_to_hosted_port r port gw_mac a =
     (if port_host port \<noteq> host a then (Done, a)
      else
        let port_ofno = get_port_ofport (int_br a) (port_name port) in
        if port_ofno = INVALID_OFPORT then (Done, clear_port_host r a)
        else
          let actions = ''strip_vlan,mod_dl_src:'' @ gw_mac @ '',dec_ttl,output:'' @
                        str_int port_ofno
          in int_add_flow
               (kw\<lparr>table := Some OF_EW_DVR_SRC, priority := Some 3,
                   dl_dst := Some (port_mac port), proto := Some ''ip'',
                   ip_dst := Some (port_ip port), actions := Some actions\<rparr>) a)"

definition del_flows_to_hosted_port :: "port \<Rightarrow> agent act" where
  "del_flows_to_hosted_port port a =
     (if port_host port \<noteq> host a then (Done, a)
      else int_delete_flows
             (kw\<lparr>table := Some OF_EW_DVR_SRC, dl_dst := Some (port_mac port),
                 proto := Some ''ip'', ip_dst := Some (port_ip port)\<rparr>) a)"

subsection \<open>Subnets\<close>

definition subnet_added ::
    "string \<Rightarrow> string \<Rightarrow> subnet \<Rightarrow> string list \<Rightarrow> string list \<Rightarrow> agent act" where
  "subnet_added dvr_id subnet_id subnet cidrs gateway_macs =
     (let gw = gateway_mac subnet;
          other_cidrs = set_diff cidrs [cidr subnet];
          other_gateway_macs = set_diff gateway_macs [gw]
      in seq (add_flows_to_other_subnets gw other_cidrs)
           (for_each
              (\<lambda>(port_id, port).
                 seq (add_flows_to_port other_gateway_macs port (seg_id subnet))
                   (add_flows_to_hosted_port (dvr_id, subnet_id, port_id) port gw))
              (ports subnet)))"

definition port_moved_into_host :: "agent \<Rightarrow> port \<Rightarrow> port \<Rightarrow> bool" where
  "port_moved_into_host a old_port new_port =
     (let current_host = port_host new_port; last_host = port_host old_port
      in current_host = host a \<and> current_host \<noteq> last_host)"

definition port_moved_out_of_host :: "agent \<Rightarrow> port \<Rightarrow> port \<Rightarrow> bool" where
  "port_moved_out_of_host a old_port new_port =
     (let current_host = port_host new_port; last_host = port_host old_port
      in last_host = host a \<and> current_host \<noteq> last_host)"

text \<open>The body of the loop over \<open>subnet['ports']\<close> in \<open>_subnet_updated\<close>; the local
  is \<open>old_subnet['ports']\<close>, from which the known ports are popped.\<close>

definition subnet_updated_port ::
    "string \<Rightarrow> string \<Rightarrow> subnet \<Rightarrow> string list \<Rightarrow> string list \<Rightarrow>
     string \<times> port \<Rightarrow> ((string \<times> port) list \<times> agent) act" where
  "subnet_updated_port dvr_id subnet_id subnet old_gateway_macs gateway_macs =
     (\<lambda>(port_id, port) (old_ports, a).
        let gw = gateway_mac subnet;
            other_gateway_macs = set_diff gateway_macs [gw]
        in case map_of old_ports port_id of
             None \<Rightarrow>
               on_agent
                 (seq (add_flows_to_port other_gateway_macs port (seg_id subnet))
                    (add_flows_to_hosted_port (dvr_id, subnet_id, port_id) port gw))
                 (old_ports, a)
           | Some old_port \<Rightarrow>
               seq (on_agent
                      (seq (del_flows_to_port (set_diff old_gateway_macs gateway_macs) port)
                         (add_flows_to_port (set_diff gateway_macs old_gateway_macs) port
                            (seg_id subnet))))
                 (seq (on_local (AList.delete port_id))
                    (on_agent
                       (\<lambda>a. if port_moved_out_of_host a old_port port
                             then del_flows_to_hosted_port old_port a
                             else if port_moved_into_host a old_port port
                             then add_flows_to_hosted_port (dvr_id, subnet_id, port_id) port gw a
                             else (Done, a))))
                 (old_ports, a))"

definition subnet_updated ::
    "string \<Rightarrow> string \<Rightarrow> subnet \<times> subnet \<Rightarrow> string list \<times> string list \<Rightarrow>
     string list \<times> string list \<Rightarrow> agent act" where
  "subnet_updated dvr_id subnet_id subnets cidrs2 gateway_macs2 =
     (case subnets of (old_subnet, subnet) \<Rightarrow>
      case cidrs2 of (old_cidrs, cidrs) \<Rightarrow>
      case gateway_macs2 of (old_gateway_macs, gateway_macs) \<Rightarrow>
        let gw = gateway_mac subnet;
            other_gateway_macs = set_diff gateway_macs [gw]
        in seq (del_flows_to_other_subnets gw (set_diff old_cidrs cidrs))
             (seq (add_flows_to_other_subnets gw (set_diff cidrs old_cidrs))
                (with_local (ports old_subnet)
                   (for_each
                      (subnet_updated_port dvr_id subnet_id subnet old_gateway_macs gateway_macs)
                      (ports subnet))
                   (\<lambda>old_ports.
                      for_each
                        (\<lambda>port. seq (del_flows_to_port other_gateway_macs port)
                                  (del_flows_to_hosted_port port))
                        (dict_values old_ports)))))"

definition subnet_deleted :: "subnet \<Rightarrow> string list \<Rightarrow> string list \<Rightarrow> agent act" where
  "subnet_deleted subnet cidrs gateway_macs =
     (let gw = gateway_mac subnet;
          other_cidrs = set_diff cidrs [cidr subnet];
          other_gateway_macs = set_diff gateway_macs [gw]
      in seq (del_flows_to_other_subnets gw other_cidrs)
           (for_each
              (\<lambda>port. seq (del_flows_to_port other_gateway_macs port)
                        (del_flows_to_hosted_port port))
              (dict_values (ports subnet))))"

subsection \<open>Routers\<close>

definition dvr_cidrs :: "dvr \<Rightarrow> string list" where
  "dvr_cidrs d = remdups (map cidr (dict_values d))"

definition dvr_gateway_macs :: "dvr \<Rightarrow> string list" where
  "dvr_gateway_macs d = remdups (map gateway_mac (dict_values d))"

definition dvr_added :: "string \<Rightarrow> dvr \<Rightarrow> agent act" where
  "dvr_added dvr_id new_dvr a =
     (let a' = a\<lparr>registered_routers := AList.update dvr_id new_dvr (registered_routers a)\<rparr>;
          cidrs = dvr_cidrs new_dvr;
          gateway_macs = dvr_gateway_macs new_dvr
      in for_each
           (\<lambda>(subnet_id, subnet). subnet_added dvr_id subnet_id subnet cidrs gateway_macs)
           new_dvr a')"

definition dvr_updated :: "string \<Rightarrow> dvr \<Rightarrow> agent act" where
  "dvr_updated dvr_id new_dvr a =
     (case map_of (registered_routers a) dvr_id of
        None \<Rightarrow> (Raised KeyError, a)
      | Some old_dvr \<Rightarrow>
          let a' = a\<lparr>registered_routers :=
                       AList.update dvr_id new_dvr (AList.delete dvr_id (registered_routers a))\<rparr>;
              old_cidrs = dvr_cidrs old_dvr;
              old_gateway_macs = dvr_gateway_macs old_dvr;
              cidrs = dvr_cidrs new_dvr;
              gateway_macs = dvr_gateway_macs new_dvr
          in with_local old_dvr
               (for_each
                  (\<lambda>(subnet_id, subnet) (old_dvr, a).
                     case map_of old_dvr subnet_id of
                       None \<Rightarrow>
                         on_agent (subnet_added dvr_id subnet_id subnet cidrs gateway_macs)
                           (old_dvr, a)
                     | Some old_subnet \<Rightarrow>
                         seq (on_local (AList.delete subnet_id))
                           (on_agent
                              (subnet_updated dvr_id subnet_id (old_subnet, subnet)
                                 (old_cidrs, cidrs) (old_gateway_macs, gateway_macs)))
                           (old_dvr, a))
                  new_dvr)
               (\<lambda>old_dvr.
                  for_each (\<lambda>subnet. subnet_deleted subnet old_cidrs old_gateway_macs)
                    (dict_values old_dvr))
               a')"

definition dvr_deleted :: "string \<Rightarrow> agent act" where
  "dvr_deleted dvr_id a =
     (case map_of (registered_routers a) dvr_id of
        None \<Rightarrow> (Raised KeyError, a)
      | Some deleted_dvr \<Rightarrow>
          let a' = a\<lparr>registered_routers := AList.delete dvr_id (registered_routers a)\<rparr>;
              cidrs = dvr_cidrs deleted_dvr;
              gateway_macs = dvr_gateway_macs deleted_dvr
          in for_each (\<lambda>subnet. subnet_deleted subnet cidrs gateway_macs)
               (dict_values deleted_dvr) a')"

subsection \<open>The periodic sync\<close>

text \<open>The physical bridges are the argument \<open>phy_brs\<close> of \<open>sync_dvr_ports\<close>; each of
  them records the flow operations issued on it.\<close>

fun phys_add_flow ::
    "flow_kwargs \<Rightarrow> (string \<times> bridge) list \<Rightarrow> outcome \<times> (string \<times> bridge) list" where
  "phys_add_flow k [] = (Done, [])"
| "phys_add_flow k ((n, br) # rest) =
     (case br_issue (AddFlow k) br of
        (Raised e, br') \<Rightarrow> (Raised e, (n, br') # rest)
      | (Done, br') \<Rightarrow> (case phys_add_flow k rest of (r, rest') \<Rightarrow> (r, (n, br') # rest')))"

definition setup_dvr_flows_on_phys_brs ::
    "agent \<Rightarrow> (string \<times> bridge) list \<Rightarrow> outcome \<times> (string \<times> bridge) list" where
  "setup_dvr_flows_on_phys_brs a phys_brs =
     (if \<not> truthy (dvr_mac_address a) then (Done, phys_brs)
      else phys_add_flow
             (kw\<lparr>priority := Some 3, dl_src := dvr_mac_address a, actions := Some ''normal''\<rparr>)
             phys_brs)"

text \<open>Lines 372 to 375 of \<open>sync_dvr_ports\<close>: the retry while the own MAC is unset.\<close>

definition sync_self_mac ::
    "string reply \<Rightarrow> (string \<times> bridge) list \<Rightarrow> agent \<Rightarrow>
     outcome \<times> (string \<times> bridge) list \<times> agent" where
  "sync_self_mac mac_rep phy_brs a =
     (if \<not> truthy (dvr_mac_address a)
      then (case set_src_to_dvr (get_dvr_mac_address mac_rep a) of
              (Raised e, a') \<Rightarrow> (Raised e, phy_brs, a')
            | (Done, a') \<Rightarrow>
                (case setup_dvr_flows_on_phys_brs a' phy_brs of (r, brs) \<Rightarrow> (r, brs, a')))
      else (Done, phy_brs, a))"

text \<open>Lines 391 to 410 of \<open>sync_dvr_ports\<close>: the diff of the fetched routers against
  \<open>registered_routers\<close>; the local of the second loop is \<open>sync_dvrs\<close>, from which the
  known routers are popped.\<close>

definition sync_routers :: "routers \<Rightarrow> agent act" where
  "sync_routers sync_dvrs a =
     (let dvrs_to_delete =
            filter (\<lambda>dvr_id. map_of sync_dvrs dvr_id = None) (dict_keys (registered_routers a));
          dvrs_to_update =
            filter (\<lambda>dvr_id. map_of sync_dvrs dvr_id \<noteq> None) (dict_keys (registered_routers a))
      in seq (for_each dvr_deleted dvrs_to_delete)
           (with_local sync_dvrs
              (for_each
                 (\<lambda>dvr_id (sync_dvrs, a).
                    case map_of sync_dvrs dvr_id of
                      None \<Rightarrow> (Raised KeyError, (sync_dvrs, a))
                    | Some new_dvr \<Rightarrow>
                        seq (on_local (AList.delete dvr_id))
                          (on_agent (dvr_updated dvr_id new_dvr))
                          (sync_dvrs, a))
                 dvrs_to_update)
              (\<lambda>sync_dvrs.
                 for_each (\<lambda>(dvr_id, new_dvr). dvr_added dvr_id new_dvr) sync_dvrs))
           a)"

text \<open>
  \<open>sync_dvr_ports\<close>. \<open>mac_rep\<close> and \<open>dvrs_rep\<close> are what the plugin answers at this
  call, \<open>now\<close> is \<open>time.time()\<close> at line 377 and \<open>now_end\<close> at line 412 (seconds).
\<close>

definition sync_dvr_ports ::
    "string reply \<Rightarrow> routers reply \<Rightarrow> int \<Rightarrow> int \<Rightarrow> (string \<times> bridge) list \<Rightarrow> agent \<Rightarrow>
     outcome \<times> (string \<times> bridge) list \<times> agent" where
  "sync_dvr_ports mac_rep dvrs_rep now now_end phy_brs a0 =
     (case sync_self_mac mac_rep phy_brs a0 of
        (Raised e, brs, a) \<Rightarrow> (Raised e, brs, a)
      | (Done, brs, a) \<Rightarrow>
          if now - last_sync a < sync_interval a then (Done, brs, a)
          else
            let a1 = a\<lparr>plugin_rpc := plugin_rpc a @ [GetOpenflowEwDvrs]\<rparr> in
            case dvrs_rep of
              Fails \<Rightarrow> (Done, brs, a1)
            | Returns sync_dvrs \<Rightarrow>
                (case sync_routers sync_dvrs a1 of
                   (Raised e, a2) \<Rightarrow> (Raised e, brs, a2)
                 | (Done, a2) \<Rightarrow> (Done, brs, a2\<lparr>last_sync := now_end\<rparr>)))"

section \<open>Notions used by the properties\<close>

text \<open>The agent after the integration bridge accepted the operations \<open>ops\<close>.\<close>

definition issued :: "flow_op list \<Rightarrow> agent \<Rightarrow> agent" where
  "issued ops a = a\<lparr>int_br := (int_br a)\<lparr>flows := flows (int_br a) @ ops\<rparr>\<rparr>"

text \<open>The foreign MACs of a roster, in the words of the specification: the MAC
  addresses of the entries whose host is not this host and whose MAC is not this
  agent's own.\<close>

definition desired_macs :: "agent \<Rightarrow> dvr_mac list \<Rightarrow> string set" where
  "desired_macs a roster =
     {mac_address m | m. m \<in> set roster \<and> Some (mac_host m) \<noteq> host a \<and>
                         Some (mac_address m) \<noteq> dvr_mac_address a}"

text \<open>The two rules of a foreign MAC: the Table-0 resubmit rule and the Table-2 drop rule,
  as they are deleted and as they are installed.\<close>

definition mac_del_ops :: "string \<Rightarrow> flow_op list" where
  "mac_del_ops m =
     [DeleteFlows (kw\<lparr>dl_src := Some m, actions := Some ''resubmit(,2)''\<rparr>),
      DeleteFlows (kw\<lparr>table := Some 2, dl_src := Some m, actions := Some ''drop''\<rparr>)]"

definition mac_add_ops :: "string \<Rightarrow> flow_op list" where
  "mac_add_ops m =
     [AddFlow (kw\<lparr>priority := Some 5, dl_src := Some m, actions := Some ''resubmit(,2)''\<rparr>),
      AddFlow (kw\<lparr>table := Some 2, priority := Some 2, dl_src := Some m,
                  actions := Some ''drop''\<rparr>)]"

text \<open>An invariant of a statement: it holds after the statement, however it ends, when
  it held before.\<close>

definition preserves :: "('s \<Rightarrow> bool) \<Rightarrow> 's act \<Rightarrow> bool" where
  "preserves I f = (\<forall>s r s'. I s \<longrightarrow> f s = (r, s') \<longrightarrow> I s')"

text \<open>An invariant of the agent that all topology flow functions keep: it is kept by a
  delete, by an add issued while the own MAC is set, and by the hosted-port add for the
  port objects \<open>C\<close> it is called with.\<close>

definition stable :: "(agent \<Rightarrow> bool) \<Rightarrow> (port_ref \<Rightarrow> port \<Rightarrow> bool) \<Rightarrow> bool" where
  "stable I C =
     ((\<forall>k. preserves I (int_delete_flows k)) \<and>
      (\<forall>k. preserves (\<lambda>a. I a \<and> truthy (dvr_mac_address a)) (int_add_flow k)) \<and>
      (\<forall>r p gw. C r p \<longrightarrow> preserves I (add_flows_to_hosted_port r p gw)))"

definition reg_indep :: "(agent \<Rightarrow> bool) \<Rightarrow> bool" where
  "reg_indep I = (\<forall>a rs. I a \<longrightarrow> I (a\<lparr>registered_routers := rs\<rparr>))"

text \<open>The fields of the agent that no topology function writes.\<close>

definition same_frame :: "agent \<Rightarrow> agent \<Rightarrow> bool" where
  "same_frame a b =
     (plugin_rpc b = plugin_rpc a \<and> int_ofports b = int_ofports a \<and> host b = host a \<and>
      sync_interval b = sync_interval a \<and> dvr_mac_address b = dvr_mac_address a \<and>
      registered_dvr_macs b = registered_dvr_macs a \<and> last_sync b = last_sync a \<and>
      ofports (int_br b) = ofports (int_br a))"

text \<open>The number of topology fetches (calls of \<open>get_openflow_ew_dvrs\<close>) made so far.\<close>

definition fetches :: "agent \<Rightarrow> nat" where
  "fetches a = length (filter (\<lambda>c. c = GetOpenflowEwDvrs) (plugin_rpc a))"

text \<open>The Table-2 priority-1 rule of \<open>_set_src_to_dvr\<close> for the MAC the agent holds.\<close>

definition self_mac_op :: "agent \<Rightarrow> flow_op" where
  "self_mac_op a =
     AddFlow (kw\<lparr>table := Some 2, priority := Some 1,
                 actions := Some (''mod_dl_src:'' @ str_opt (dvr_mac_address a) @ '','' @
                                  int_ofports a)\<rparr>)"



text \<open>Two ports, subnets, routers are equal up to host fields that have been cleared
  (\<open>port['host'] = None\<close> for a port that was not ready).\<close>

definition port_upto_host :: "port \<Rightarrow> port \<Rightarrow> bool" where
  "port_upto_host p p' = (p' = p \<or> p' = p\<lparr>port_host := None\<rparr>)"

definition subnet_upto_host :: "subnet \<Rightarrow> subnet \<Rightarrow> bool" where
  "subnet_upto_host s s' =
     (cidr s' = cidr s \<and> gateway_mac s' = gateway_mac s \<and> seg_id s' = seg_id s \<and>
      list_all2 (\<lambda>x y. fst y = fst x \<and> port_upto_host (snd x) (snd y)) (ports s) (ports s'))"

definition dvr_upto_host :: "dvr \<Rightarrow> dvr \<Rightarrow> bool" where
  "dvr_upto_host d d' =
     list_all2 (\<lambda>x y. fst y = fst x \<and> subnet_upto_host (snd x) (snd y)) d d'"

text \<open>No port of the router is hosted by this agent and not ready.\<close>

definition all_ready :: "agent \<Rightarrow> dvr \<Rightarrow> bool" where
  "all_ready a d =
     (\<forall>sn \<in> set (dict_values d). \<forall>p \<in> set (dict_values (ports sn)).
        port_host p = host a \<longrightarrow> get_port_ofport (int_br a) (port_name p) \<noteq> INVALID_OFPORT)"



text \<open>Equality of Python dictionaries (the order of the entries does not count), with the
  values compared by \<open>R\<close>; of subnets, routers and topologies.\<close>

definition dict_rel :: "('v \<Rightarrow> 'w \<Rightarrow> bool) \<Rightarrow> ('k \<times> 'v) list \<Rightarrow> ('k \<times> 'w) list \<Rightarrow> bool" where
  "dict_rel R d d' = (\<forall>k. rel_option R (map_of d k) (map_of d' k))"

definition subnet_eq :: "subnet \<Rightarrow> subnet \<Rightarrow> bool" where
  "subnet_eq s s' =
     (cidr s = cidr s' \<and> gateway_mac s = gateway_mac s' \<and> seg_id s = seg_id s' \<and>
      dict_rel (=) (ports s) (ports s'))"

definition dvr_eq :: "dvr \<Rightarrow> dvr \<Rightarrow> bool" where
  "dvr_eq = dict_rel subnet_eq"

definition routers_eq :: "routers \<Rightarrow> routers \<Rightarrow> bool" where
  "routers_eq = dict_rel dvr_eq"

text \<open>A router, a topology whose dictionaries have each key once, as Python dictionaries do.\<close>

definition wf_dvr :: "dvr \<Rightarrow> bool" where
  "wf_dvr d = (distinct (map fst d) \<and> list_all (\<lambda>s. distinct (map fst (ports s))) (dict_values d))"

definition wf_routers :: "routers \<Rightarrow> bool" where
  "wf_routers T = (distinct (map fst T) \<and> list_all wf_dvr (dict_values T))"

text \<open>The registry is \<open>rs\<close>, on an agent with the host and the ofports of \<open>a0\<close>.\<close>

definition regs_fixed :: "agent \<Rightarrow> routers \<Rightarrow> agent \<Rightarrow> bool" where
  "regs_fixed a0 rs a =
     (host a = host a0 \<and> ofports (int_br a) = ofports (int_br a0) \<and>
      registered_routers a = rs)"

text \<open>The Table-1 resolve flows of a port \<open>p\<close> for a gateway MAC \<open>g\<close>: the delete that
  \<open>_del_flows_to_port\<close> issues and the add that \<open>_add_flows_to_port\<close> issues; the table an
  operation addresses.\<close>

definition resolve_del :: "port \<Rightarrow> string \<Rightarrow> flow_op" where
  "resolve_del p g =
     DeleteFlows (kw\<lparr>table := Some 1, dl_dst := Some g, proto := Some ''ip'',
                     ip_dst := Some (port_ip p)\<rparr>)"

definition resolve_add :: "subnet \<Rightarrow> port \<Rightarrow> string \<Rightarrow> flow_op" where
  "resolve_add sn p g =
     AddFlow (kw\<lparr>table := Some 1, priority := Some 2, dl_dst := Some g, proto := Some ''ip'',
                 ip_dst := Some (port_ip p),
                 actions := Some (''mod_dl_dst:'' @ port_mac p @ '',mod_vlan_vid:'' @
                                  str_int (seg_id sn) @ '',resubmit(,2)'')\<rparr>)"

definition op_table :: "flow_op \<Rightarrow> nat option" where
  "op_table op = (case op of AddFlow k \<Rightarrow> table k | DeleteFlows k \<Rightarrow> table k)"

text \<open>The Table-2 priority-3 hosted-delivery flow that \<open>_add_flows_to_hosted_port\<close> installs
  for a port, with the gateway MAC of its subnet and its ofport.\<close>

definition hosted_add :: "port \<Rightarrow> string \<Rightarrow> int \<Rightarrow> flow_op" where
  "hosted_add p gw ofno =
     AddFlow (kw\<lparr>table := Some 2, priority := Some 3, dl_dst := Some (port_mac p),
                 proto := Some ''ip'', ip_dst := Some (port_ip p),
                 actions := Some (''strip_vlan,mod_dl_src:'' @ gw @ '',dec_ttl,output:'' @
                                  str_int ofno)\<rparr>)"

text \<open>The operations the integration bridge accepted between two states of the agent.\<close>

definition new_ops :: "agent \<Rightarrow> agent \<Rightarrow> flow_op list" where
  "new_ops a a' = drop (length (flows (int_br a))) (flows (int_br a'))"

text \<open>A step of the agent on a bridge that accepts every operation: the bridge still does,
  the host and the ofports are the same, the log of operations has grown, and only the routers
  \<open>Xs\<close> of the registry were written.\<close>

definition step_ok :: "string set \<Rightarrow> agent \<Rightarrow> agent \<Rightarrow> bool" where
  "step_ok Xs a a' =
     (budget (int_br a') = None \<and> host a' = host a \<and>
      ofports (int_br a') = ofports (int_br a) \<and>
      (\<exists>ops. flows (int_br a') = flows (int_br a) @ ops) \<and>
      (\<forall>k. k \<notin> Xs \<longrightarrow> map_of (registered_routers a') k = map_of (registered_routers a) k))"

text \<open>A statement that returns normally on every bridge that accepts every operation; the
  same for a statement of a loop with a local dictionary, which \<open>pops\<close> at most the key \<open>k\<close>.\<close>

definition runs :: "string set \<Rightarrow> agent act \<Rightarrow> bool" where
  "runs Xs f = (\<forall>a. budget (int_br a) = None \<longrightarrow> (\<exists>a'. f a = (Done, a') \<and> step_ok Xs a a'))"

definition pops :: "string set \<Rightarrow> 'k \<Rightarrow> (('k \<times> 'v) list \<times> agent) act \<Rightarrow> bool" where
  "pops Xs k f =
     (\<forall>c a. budget (int_br a) = None \<longrightarrow>
        (\<exists>c' a'. f (c, a) = (Done, (c', a')) \<and> step_ok Xs a a' \<and>
                 (\<forall>j. j \<noteq> k \<longrightarrow> map_of c' j = map_of c j)))"

definition runs_local :: "string set \<Rightarrow> ('c \<times> agent) act \<Rightarrow> bool" where
  "runs_local Xs f =
     (\<forall>c a. budget (int_br a) = None \<longrightarrow>
        (\<exists>c' a'. f (c, a) = (Done, (c', a')) \<and> step_ok Xs a a'))"

subsection \<open>Example data\<close>

text \<open>The scenario of the specification: router R1 with subnets S1 (one port P1, hosted
  on H1) and S2 (no port).\<close>

definition ex_br :: bridge where
  "ex_br = \<lparr>flows = [], budget = None, ofports = [(''tap1'', 7)]\<rparr>"

definition ex_agent :: agent where
  "ex_agent =
     \<lparr>plugin_rpc = [], int_br = ex_br, int_ofports = ''1'', host = Some ''H1'',
      sync_interval = 300, dvr_mac_address = Some ''fa:16'', registered_dvr_macs = [''fa:20''],
      last_sync = 0, registered_routers = []\<rparr>"

definition ex_roster :: "dvr_mac list" where
  "ex_roster = [\<lparr>mac_host = ''H2'', mac_address = ''fa:17''\<rparr>,
                \<lparr>mac_host = ''H1'', mac_address = ''fa:16''\<rparr>]"

definition ex_P1 :: port where
  "ex_P1 = \<lparr>port_mac = ''m1'', port_ip = ''10.0.1.5'', port_host = Some ''H1'',
            port_name = ''tap1''\<rparr>"

definition ex_S1 :: subnet where
  "ex_S1 = \<lparr>cidr = ''10.0.1.0/24'', gateway_mac = ''aa:1'', seg_id = 101,
            ports = [(''P1'', ex_P1)]\<rparr>"

definition ex_S2 :: subnet where
  "ex_S2 = \<lparr>cidr = ''10.0.2.0/24'', gateway_mac = ''aa:2'', seg_id = 102, ports = []\<rparr>"

definition ex_R1 :: dvr where
  "ex_R1 = [(''S1'', ex_S1), (''S2'', ex_S2)]"

definition ex_T :: routers where
  "ex_T = [(''R1'', ex_R1)]"

text \<open>The example agent with its own MAC unset; with a bridge that raises at once; with
  router R1 registered and no port attached.\<close>

definition ex_unset :: agent where
  "ex_unset = ex_agent\<lparr>dvr_mac_address := None\<rparr>"

definition ex_failing :: agent where
  "ex_failing = ex_agent\<lparr>int_br := ex_br\<lparr>budget := Some 0\<rparr>\<rparr>"

definition ex_notready :: agent where
  "ex_notready = ex_agent\<lparr>int_br := ex_br\<lparr>ofports := []\<rparr>, registered_routers := ex_T\<rparr>"

text \<open>The example agent after a reconcile of the example topology; with a bridge that
  raises at the second operation.\<close>

definition ex_synced :: agent where
  "ex_synced = ex_agent\<lparr>registered_routers := ex_T\<rparr>"

definition ex_failing1 :: agent where
  "ex_failing1 = ex_agent\<lparr>int_br := ex_br\<lparr>budget := Some 1\<rparr>\<rparr>"

text \<open>The agent after the host of port P1 was cleared, once the port is attached. An agent
  constructed without a host (the default of the constructor), a port without host binding, and
  the agent after a first tick, then with the port attached.\<close>

definition ex_deferred :: agent where
  "ex_deferred = (clear_port_host (''R1'', ''S1'', ''P1'') ex_notready)\<lparr>int_br := ex_br\<rparr>"

definition ex_P0 :: port where
  "ex_P0 = ex_P1\<lparr>port_host := None\<rparr>"

definition ex_T0 :: routers where
  "ex_T0 = [(''R1'', [(''S1'', ex_S1\<lparr>ports := [(''P1'', ex_P0)]\<rparr>), (''S2'', ex_S2)])]"

definition ex_nohost :: agent where
  "ex_nohost = ex_agent\<lparr>host := None, int_br := ex_br\<lparr>ofports := []\<rparr>\<rparr>"

definition ex_nohost1 :: agent where
  "ex_nohost1 = snd (snd (sync_dvr_ports Fails (Returns ex_T0) 1000 1001 [] ex_nohost))"

definition ex_nohost2 :: agent where
  "ex_nohost2 = ex_nohost1\<lparr>int_br := (int_br ex_nohost1)\<lparr>ofports := [(''tap1'', 7)]\<rparr>\<rparr>"

section \<open>Properties\<close>

subsection \<open>Sequencing and the bridge\<close>

lemma issued_Nil [simp]: "issued [] a = a"
  by (simp add: issued_def)

lemma issued_issued [simp]: "issued ys (issued xs a) = issued (xs @ ys) a"
  by (simp add: issued_def)

lemma issued_fields [simp]:
  "flows (int_br (issued ops a)) = flows (int_br a) @ ops"
  "budget (int_br (issued ops a)) = budget (int_br a)"
  "ofports (int_br (issued ops a)) = ofports (int_br a)"
  "dvr_mac_address (issued ops a) = dvr_mac_address a"
  "host (issued ops a) = host a"
  "registered_routers (issued ops a) = registered_routers a"
  "registered_dvr_macs (issued ops a) = registered_dvr_macs a"
  "last_sync (issued ops a) = last_sync a"
  "sync_interval (issued ops a) = sync_interval a"
  "plugin_rpc (issued ops a) = plugin_rpc a"
  "int_ofports (issued ops a) = int_ofports a"
  by (simp_all add: issued_def)

lemma int_add_flow_ok:
  "budget (int_br a) = None \<Longrightarrow> int_add_flow k a = (Done, issued [AddFlow k] a)"
  by (simp add: int_add_flow_def br_issue_def issued_def)

lemma int_delete_flows_ok:
  "budget (int_br a) = None \<Longrightarrow> int_delete_flows k a = (Done, issued [DeleteFlows k] a)"
  by (simp add: int_delete_flows_def br_issue_def issued_def)

lemma resubmit_simps:
  "resubmit 2 = ''resubmit(,2)''" "resubmit (Suc 0) = ''resubmit(,1)''"
  by (simp_all add: resubmit_def str_nat.simps)

lemmas consts_simps = OF_EW_DVR_SRC_def OF_EW_DVR_DST_def resubmit_simps

lemmas ex_defs = ex_agent_def ex_br_def ex_unset_def ex_failing_def ex_notready_def ex_T_def
  ex_R1_def ex_S1_def ex_S2_def ex_P1_def

lemmas run_defs = truthy_def Let_def dict_keys_def dict_values_def set_diff_def seq_def
  with_local_def on_agent_def on_local_def dvr_added_def dvr_updated_def dvr_deleted_def
  subnet_added_def subnet_updated_def subnet_updated_port_def subnet_deleted_def
  add_flows_to_other_subnets_def del_flows_to_other_subnets_def add_flows_to_port_def
  del_flows_to_port_def add_flows_to_hosted_port_def del_flows_to_hosted_port_def
  port_moved_into_host_def port_moved_out_of_host_def clear_port_host_def
  get_port_ofport_def INVALID_OFPORT_def int_add_flow_def int_delete_flows_def br_issue_def
  consts_simps str_int_def str_nat.simps str_opt_def dvr_cidrs_def dvr_gateway_macs_def

lemmas sync_defs = sync_dvr_ports_def sync_self_mac_def sync_routers_def get_dvr_mac_address_def
  set_src_to_dvr_def setup_dvr_flows_on_phys_brs_def

subsection \<open>The foreign DVR MACs\<close>

lemma removed_loop:
  "budget (int_br a) = None \<Longrightarrow> distinct rs \<Longrightarrow> set rs \<subseteq> set (registered_dvr_macs a) \<Longrightarrow>
   for_each
     (\<lambda>oldmac.
        seq (int_delete_flows
               (kw\<lparr>dl_src := Some oldmac, actions := Some (resubmit OF_EW_DVR_SRC)\<rparr>))
          (seq (int_delete_flows
                  (kw\<lparr>table := Some OF_EW_DVR_SRC, dl_src := Some oldmac,
                      actions := Some ''drop''\<rparr>))
             (registry_remove oldmac))) rs a =
   (Done, (issued (concat (map mac_del_ops rs)) a)
            \<lparr>registered_dvr_macs := filter (\<lambda>m. m \<notin> set rs) (registered_dvr_macs a)\<rparr>)"
proof (induction rs arbitrary: a)
  case Nil
  then show ?case by simp
next
  case (Cons r rs)
  let ?a1 = "(issued (mac_del_ops r) a)
               \<lparr>registered_dvr_macs := removeAll r (registered_dvr_macs a)\<rparr>"
  have step:
    "seq (int_delete_flows
            (kw\<lparr>dl_src := Some r, actions := Some (resubmit OF_EW_DVR_SRC)\<rparr>))
       (seq (int_delete_flows
               (kw\<lparr>table := Some OF_EW_DVR_SRC, dl_src := Some r, actions := Some ''drop''\<rparr>))
          (registry_remove r)) a = (Done, ?a1)"
    using Cons.prems
    by (simp add: seq_def int_delete_flows_ok registry_remove_def mac_del_ops_def consts_simps
        issued_def)
  have b: "budget (int_br ?a1) = None" using Cons.prems by (simp add: issued_def)
  have s: "set rs \<subseteq> set (registered_dvr_macs ?a1)" using Cons.prems by auto
  have d: "distinct rs" using Cons.prems by simp
  have flt: "filter (\<lambda>m. m \<notin> set rs) (removeAll r (registered_dvr_macs a)) =
             filter (\<lambda>m. m \<notin> set (r # rs)) (registered_dvr_macs a)"
    by (induction "registered_dvr_macs a")
       (auto simp: removeAll_filter_not_eq filter_filter intro: filter_cong)
  show ?case
    using Cons.IH[OF b d s] flt
    by (subst for_each.simps, subst seq_def) (simp add: step)
qed

lemma added_loop:
  "budget (int_br a) = None \<Longrightarrow>
   for_each
     (\<lambda>newmac.
        seq (int_add_flow
               (kw\<lparr>priority := Some 5, dl_src := Some newmac,
                   actions := Some (resubmit OF_EW_DVR_SRC)\<rparr>))
          (seq (int_add_flow
                  (kw\<lparr>table := Some OF_EW_DVR_SRC, priority := Some 2,
                      dl_src := Some newmac, actions := Some ''drop''\<rparr>))
             (registry_add newmac))) ns a =
   (Done, (issued (concat (map mac_add_ops ns)) a)
            \<lparr>registered_dvr_macs := fold List.insert ns (registered_dvr_macs a)\<rparr>)"
proof (induction ns arbitrary: a)
  case Nil
  then show ?case by simp
next
  case (Cons n ns)
  let ?a1 = "(issued (mac_add_ops n) a)
               \<lparr>registered_dvr_macs := List.insert n (registered_dvr_macs a)\<rparr>"
  have step:
    "seq (int_add_flow
            (kw\<lparr>priority := Some 5, dl_src := Some n,
                actions := Some (resubmit OF_EW_DVR_SRC)\<rparr>))
       (seq (int_add_flow
               (kw\<lparr>table := Some OF_EW_DVR_SRC, priority := Some 2,
                   dl_src := Some n, actions := Some ''drop''\<rparr>))
          (registry_add n)) a = (Done, ?a1)"
    using Cons.prems
    by (simp add: seq_def int_add_flow_ok registry_add_def mac_add_ops_def consts_simps
        issued_def)
  have b: "budget (int_br ?a1) = None" using Cons.prems by (simp add: issued_def)
  show ?case
    using Cons.IH[OF b]
    by (subst for_each.simps, subst seq_def) (simp add: step)
qed

lemma set_fold_insert: "set (fold List.insert ns xs) = set ns \<union> set xs"
  by (induction ns arbitrary: xs) auto

lemma distinct_fold_insert: "distinct xs \<Longrightarrow> distinct (fold List.insert ns xs)"
  by (induction ns arbitrary: xs) auto

lemma desired_macs_code:
  "set (remdups (map mac_address (filter (is_foreign a) roster))) = desired_macs a roster"
  by (auto simp: desired_macs_def is_foreign_def)

text \<open>
  C4. With the own DVR MAC set (and a bridge that accepts the operations),
  \<open>dvr_mac_address_update\<close> on a roster deletes the two rules of exactly the registered
  MACs that are not desired, then installs the two rules of exactly the desired MACs
  that are not registered, and leaves the registry equal to the desired set. When the
  desired set equals the registry both lists are empty: no flow operation is issued.
\<close>

theorem dvr_mac_address_update_diff:
  assumes "truthy (dvr_mac_address a)" and "budget (int_br a) = None"
      and "distinct (registered_dvr_macs a)"
  shows "\<exists>removed added a'.
           dvr_mac_address_update_rpc roster a = (Done, a') \<and>
           distinct removed \<and>
           set removed = set (registered_dvr_macs a) - desired_macs a roster \<and>
           distinct added \<and>
           set added = desired_macs a roster - set (registered_dvr_macs a) \<and>
           flows (int_br a') =
             flows (int_br a) @ concat (map mac_del_ops removed) @
             concat (map mac_add_ops added) \<and>
           set (registered_dvr_macs a') = desired_macs a roster \<and>
           distinct (registered_dvr_macs a')"
proof -
  let ?des = "remdups (map mac_address (filter (is_foreign a) roster))"
  let ?rs = "set_diff (registered_dvr_macs a) ?des"
  let ?ns = "set_diff ?des (registered_dvr_macs a)"
  have des: "set ?des = desired_macs a roster" by (rule desired_macs_code)
  show ?thesis
  proof (cases "set ?des = set (registered_dvr_macs a)")
    case True
    then have "dvr_mac_address_update_rpc roster a = (Done, a)"
      using assms(1) by (simp add: dvr_mac_address_update_rpc_def)
    moreover have "set (registered_dvr_macs a) = desired_macs a roster"
      using True des by simp
    ultimately show ?thesis
      using assms(3) by (intro exI[of _ "[]"] exI[of _ a]) simp
  next
    case False
    let ?a1 = "(issued (concat (map mac_del_ops ?rs)) a)
                 \<lparr>registered_dvr_macs := filter (\<lambda>m. m \<notin> set ?rs) (registered_dvr_macs a)\<rparr>"
    let ?a2 = "(issued (concat (map mac_add_ops ?ns)) ?a1)
                 \<lparr>registered_dvr_macs := fold List.insert ?ns (registered_dvr_macs ?a1)\<rparr>"
    have drs: "distinct ?rs" using assms(3) by (simp add: set_diff_def)
    have srs: "set ?rs \<subseteq> set (registered_dvr_macs a)" by (auto simp: set_diff_def)
    have l1:
      "for_each
         (\<lambda>oldmac.
            seq (int_delete_flows
                   (kw\<lparr>dl_src := Some oldmac, actions := Some (resubmit OF_EW_DVR_SRC)\<rparr>))
              (seq (int_delete_flows
                      (kw\<lparr>table := Some OF_EW_DVR_SRC, dl_src := Some oldmac,
                          actions := Some ''drop''\<rparr>))
                 (registry_remove oldmac))) ?rs a = (Done, ?a1)"
      by (rule removed_loop[OF assms(2) drs srs])
    have b1: "budget (int_br ?a1) = None" using assms(2) by simp
    have l2:
      "for_each
         (\<lambda>newmac.
            seq (int_add_flow
                   (kw\<lparr>priority := Some 5, dl_src := Some newmac,
                       actions := Some (resubmit OF_EW_DVR_SRC)\<rparr>))
              (seq (int_add_flow
                      (kw\<lparr>table := Some OF_EW_DVR_SRC, priority := Some 2,
                          dl_src := Some newmac, actions := Some ''drop''\<rparr>))
                 (registry_add newmac))) ?ns ?a1 = (Done, ?a2)"
      by (rule added_loop[OF b1])
    have run: "dvr_mac_address_update_rpc roster a = (Done, ?a2)"
      using assms(1) False l1 l2
      by (simp add: dvr_mac_address_update_rpc_def Let_def, subst seq_def) simp
    have f: "flows (int_br ?a2) =
             flows (int_br a) @ concat (map mac_del_ops ?rs) @ concat (map mac_add_ops ?ns)"
      by simp
    have s: "set (registered_dvr_macs ?a2) = desired_macs a roster"
      using des by (auto simp: set_fold_insert set_diff_def)
    have d: "distinct (registered_dvr_macs ?a2)"
      using assms(3) by (simp add: distinct_fold_insert)
    have sr: "set ?rs = set (registered_dvr_macs a) - desired_macs a roster"
      using des by (auto simp: set_diff_def)
    have sn: "set ?ns = desired_macs a roster - set (registered_dvr_macs a)"
      using des by (auto simp: set_diff_def)
    have dn: "distinct ?ns" by (simp add: set_diff_def)
    show ?thesis
      using run drs sr dn sn f s d by blast
  qed
qed

theorem dvr_mac_address_update_diff_witness:
  "truthy (dvr_mac_address ex_agent) \<and> budget (int_br ex_agent) = None \<and>
   distinct (registered_dvr_macs ex_agent) \<and>
   (\<exists>removed added a'.
      dvr_mac_address_update_rpc ex_roster ex_agent = (Done, a') \<and>
      distinct removed \<and>
      set removed = set (registered_dvr_macs ex_agent) - desired_macs ex_agent ex_roster \<and>
      distinct added \<and>
      set added = desired_macs ex_agent ex_roster - set (registered_dvr_macs ex_agent) \<and>
      flows (int_br a') =
        flows (int_br ex_agent) @ concat (map mac_del_ops removed) @
        concat (map mac_add_ops added) \<and>
      set (registered_dvr_macs a') = desired_macs ex_agent ex_roster \<and>
      distinct (registered_dvr_macs a'))"
  using dvr_mac_address_update_diff [of ex_agent ex_roster]
  by (simp add: ex_agent_def ex_br_def truthy_def)

subsection \<open>Invariants of the topology functions\<close>

lemma preservesI: "(\<And>s r s'. I s \<Longrightarrow> f s = (r, s') \<Longrightarrow> I s') \<Longrightarrow> preserves I f"
  unfolding preserves_def by blast

lemma preservesE: "preserves I f \<Longrightarrow> I s \<Longrightarrow> f s = (r, s') \<Longrightarrow> I s'"
  unfolding preserves_def by blast

lemma preserves_seq:
  assumes "preserves I f" and "preserves I g"
  shows "preserves I (seq f g)"
proof (rule preservesI)
  fix s r s' assume I: "I s" and run: "seq f g s = (r, s')"
  obtain r1 s1 where f: "f s = (r1, s1)" by (cases "f s")
  have I1: "I s1" by (rule preservesE[OF assms(1) I f])
  show "I s'"
  proof (cases r1)
    case Done
    then have "g s1 = (r, s')" using run f by (simp add: seq_def)
    then show ?thesis by (rule preservesE[OF assms(2) I1])
  next
    case (Raised e)
    then have "s' = s1" using run f by (simp add: seq_def)
    then show ?thesis using I1 by simp
  qed
qed

lemma preserves_for_each:
  "(\<And>x. x \<in> set xs \<Longrightarrow> preserves I (f x)) \<Longrightarrow> preserves I (for_each f xs)"
proof (induction xs)
  case Nil
  show ?case by (rule preservesI) simp
next
  case (Cons x xs)
  have "preserves I (seq (f x) (for_each f xs))"
    by (rule preserves_seq) (simp_all add: Cons)
  then show ?case unfolding preserves_def by simp
qed

lemma preserves_on_agent:
  assumes "preserves I f"
  shows "preserves (\<lambda>s. I (snd s)) (on_agent f)"
proof (rule preservesI)
  fix s :: "'c \<times> agent" and r s'
  assume I: "I (snd s)" and run: "on_agent f s = (r, s')"
  obtain r1 a1 where f: "f (snd s) = (r1, a1)" by (cases "f (snd s)")
  have "s' = (fst s, a1)" using run f by (cases s) (simp add: on_agent_def)
  then show "I (snd s')" using preservesE[OF assms I f] by simp
qed

lemma preserves_on_local: "preserves (\<lambda>s. I (snd s)) (on_local g)"
  by (rule preservesI) (auto simp: on_local_def split: prod.splits)

lemma preserves_with_local:
  assumes "preserves (\<lambda>s. I (snd s)) body" and "\<And>c. preserves I (rest c)"
  shows "preserves I (with_local c body rest)"
proof (rule preservesI)
  fix a r a' assume I: "I a" and run: "with_local c body rest a = (r, a')"
  obtain r1 c1 a1 where b: "body (c, a) = (r1, (c1, a1))" by (cases "body (c, a)") auto
  have I1: "I a1" using preservesE[OF assms(1) _ b] I by simp
  show "I a'"
  proof (cases r1)
    case Done
    then have "rest c1 a1 = (r, a')" using run b by (simp add: with_local_def)
    then show ?thesis by (rule preservesE[OF assms(2) I1])
  next
    case (Raised e)
    then have "a' = a1" using run b by (simp add: with_local_def)
    then show ?thesis using I1 by simp
  qed
qed

lemma stable_del: "stable I C \<Longrightarrow> preserves I (int_delete_flows k)"
  by (simp add: stable_def)

lemma stable_hosted: "stable I C \<Longrightarrow> C r p \<Longrightarrow> preserves I (add_flows_to_hosted_port r p gw)"
  by (cases r) (auto simp: stable_def)

lemma stable_add: "stable I C \<Longrightarrow> preserves (\<lambda>a. I a \<and> truthy (dvr_mac_address a)) (int_add_flow k)"
  by (simp add: stable_def)

lemma preserves_add_flows_to_other_subnets:
  assumes "stable I C"
  shows "preserves I (add_flows_to_other_subnets gw cidrs)"
proof (rule preservesI)
  fix a r a' assume I: "I a" and run: "add_flows_to_other_subnets gw cidrs a = (r, a')"
  show "I a'"
  proof (cases "truthy (dvr_mac_address a)")
    case True
    have "preserves (\<lambda>a. I a \<and> truthy (dvr_mac_address a))
            (for_each (\<lambda>c. int_add_flow
                     (kw\<lparr>priority := Some 2, dl_dst := Some gw, proto := Some ''ip'',
                         ip_dst := Some c, actions := Some (resubmit OF_EW_DVR_DST)\<rparr>)) cidrs)"
      by (rule preserves_for_each) (rule stable_add[OF assms])
    from preservesE[OF this, of a r a'] I True run show ?thesis
      by (simp add: add_flows_to_other_subnets_def)
  next
    case False
    then show ?thesis using I run by (simp add: add_flows_to_other_subnets_def)
  qed
qed

lemma preserves_add_flows_to_port:
  assumes "stable I C"
  shows "preserves I (add_flows_to_port gws port seg)"
proof (rule preservesI)
  fix a r a' assume I: "I a" and run: "add_flows_to_port gws port seg a = (r, a')"
  show "I a'"
  proof (cases "truthy (dvr_mac_address a)")
    case True
    have "preserves (\<lambda>a. I a \<and> truthy (dvr_mac_address a))
            (for_each (\<lambda>g. int_add_flow
                     (kw\<lparr>table := Some OF_EW_DVR_DST, priority := Some 2, dl_dst := Some g,
                         proto := Some ''ip'', ip_dst := Some (port_ip port),
                         actions := Some (''mod_dl_dst:'' @ port_mac port @ '',mod_vlan_vid:'' @ str_int seg @
                      '','' @ resubmit OF_EW_DVR_SRC)\<rparr>)) gws)"
      by (rule preserves_for_each) (rule stable_add[OF assms])
    from preservesE[OF this, of a r a'] I True run show ?thesis
      by (simp add: add_flows_to_port_def)
  next
    case False
    then show ?thesis using I run by (simp add: add_flows_to_port_def)
  qed
qed

lemma preserves_del_flows_to_other_subnets:
  "stable I C \<Longrightarrow> preserves I (del_flows_to_other_subnets gw cidrs)"
  unfolding del_flows_to_other_subnets_def
  by (rule preserves_for_each) (rule stable_del)

lemma preserves_del_flows_to_port:
  "stable I C \<Longrightarrow> preserves I (del_flows_to_port gws port)"
  unfolding del_flows_to_port_def
  by (rule preserves_for_each) (rule stable_del)

lemma preserves_del_flows_to_hosted_port:
  assumes "stable I C"
  shows "preserves I (del_flows_to_hosted_port port)"
proof (rule preservesI)
  fix a r a' assume "I a" and "del_flows_to_hosted_port port a = (r, a')"
  then show "I a'"
    using preservesE[OF stable_del[OF assms]]
    by (auto simp: del_flows_to_hosted_port_def split: if_splits)
qed

lemma preserves_subnet_added:
  assumes "stable I C" and "\<And>pid p. (pid, p) \<in> set (ports subnet) \<Longrightarrow> C (dvr_id, subnet_id, pid) p"
  shows "preserves I (subnet_added dvr_id subnet_id subnet cidrs gws)"
  unfolding subnet_added_def Let_def
  by (intro preserves_seq preserves_for_each preserves_add_flows_to_other_subnets[OF assms(1)])
     (auto intro!: preserves_seq preserves_add_flows_to_port[OF assms(1)]
        stable_hosted[OF assms(1)] assms(2))

lemma preserves_subnet_deleted:
  assumes "stable I C"
  shows "preserves I (subnet_deleted subnet cidrs gws)"
  unfolding subnet_deleted_def Let_def
  by (intro preserves_seq preserves_for_each preserves_del_flows_to_other_subnets[OF assms]
        preserves_del_flows_to_port[OF assms] preserves_del_flows_to_hosted_port[OF assms])

lemma preserves_hosted_move:
  assumes "stable I C" and "C r port"
  shows "preserves I
           (\<lambda>a. if port_moved_out_of_host a old_port port
                 then del_flows_to_hosted_port old_port a
                 else if port_moved_into_host a old_port port
                 then add_flows_to_hosted_port r port gw a
                 else (Done, a))"
proof (rule preservesI)
  fix a ra a'
  assume I: "I a" and run:
    "(if port_moved_out_of_host a old_port port
      then del_flows_to_hosted_port old_port a
      else if port_moved_into_host a old_port port
      then add_flows_to_hosted_port r port gw a
      else (Done, a)) = (ra, a')"
  show "I a'"
  proof (cases "port_moved_out_of_host a old_port port")
    case True
    then show ?thesis
      using run preservesE[OF preserves_del_flows_to_hosted_port[OF assms(1)] I] by simp
  next
    case False
    show ?thesis
    proof (cases "port_moved_into_host a old_port port")
      case True
      then show ?thesis
        using run False preservesE[OF stable_hosted[OF assms] I] by simp
    next
      case F2: False
      then show ?thesis using run False I by simp
    qed
  qed
qed

lemma preserves_subnet_updated_port:
  assumes "stable I C" and "C (dvr_id, subnet_id, fst x) (snd x)"
  shows "preserves (\<lambda>s. I (snd s)) (subnet_updated_port dvr_id subnet_id subnet old_gws gws x)"
proof (rule preservesI)
  fix s :: "(string \<times> port) list \<times> agent" and r s'
  assume I: "I (snd s)"
     and run: "subnet_updated_port dvr_id subnet_id subnet old_gws gws x s = (r, s')"
  obtain old_ports a where s: "s = (old_ports, a)" by (cases s)
  obtain port_id port where x: "x = (port_id, port)" by (cases x)
  have C: "C (dvr_id, subnet_id, port_id) port" using assms(2) x by simp
  show "I (snd s')"
  proof (cases "map_of old_ports port_id")
    case None
    have "preserves (\<lambda>s. I (snd s))
            (on_agent (seq (add_flows_to_port (set_diff gws [gateway_mac subnet]) port (seg_id subnet))
                    (add_flows_to_hosted_port (dvr_id, subnet_id, port_id) port (gateway_mac subnet)))
             :: ((string \<times> port) list \<times> agent) act)"
      by (intro preserves_on_agent preserves_seq preserves_add_flows_to_port[OF assms(1)]
            stable_hosted[OF assms(1) C])
    from preservesE[OF this, of s r s'] I show ?thesis
      using None run by (simp add: subnet_updated_port_def s x Let_def)
  next
    case (Some old_port)
    have 1: "preserves (\<lambda>s. I (snd s))
               (on_agent (seq (del_flows_to_port (set_diff old_gws gws) port)
                         (add_flows_to_port (set_diff gws old_gws) port (seg_id subnet)))
                :: ((string \<times> port) list \<times> agent) act)"
      by (intro preserves_on_agent preserves_seq preserves_add_flows_to_port[OF assms(1)]
            preserves_del_flows_to_port[OF assms(1)])
    have 2: "preserves (\<lambda>s. I (snd s))
               (seq (on_local (AList.delete port_id))
                    (on_agent
                      (\<lambda>a. if port_moved_out_of_host a old_port port
                            then del_flows_to_hosted_port old_port a
                            else if port_moved_into_host a old_port port
                            then add_flows_to_hosted_port (dvr_id, subnet_id, port_id) port (gateway_mac subnet) a
                            else (Done, a)))
                :: ((string \<times> port) list \<times> agent) act)"
      by (intro preserves_seq preserves_on_local preserves_on_agent
            preserves_hosted_move[OF assms(1) C])
    from preservesE[OF preserves_seq[OF 1 2], of s r s'] I show ?thesis
      using Some run by (simp add: subnet_updated_port_def s x Let_def)
  qed
qed

lemma preserves_subnet_updated:
  assumes "stable I C" and "\<And>pid p. (pid, p) \<in> set (ports subnet) \<Longrightarrow> C (dvr_id, subnet_id, pid) p"
  shows "preserves I (subnet_updated dvr_id subnet_id (old_subnet, subnet) cs gs)"
proof -
  obtain old_cidrs cidrs where cs: "cs = (old_cidrs, cidrs)" by (cases cs)
  obtain old_gws gws where gs: "gs = (old_gws, gws)" by (cases gs)
  have loop: "preserves (\<lambda>s. I (snd s))
     (for_each (subnet_updated_port dvr_id subnet_id subnet old_gws gws) (ports subnet))"
    by (rule preserves_for_each, rule preserves_subnet_updated_port[OF assms(1)])
       (auto intro: assms(2))
  have rest: "\<And>old_ports. preserves I
     (for_each (\<lambda>port. seq (del_flows_to_port (set_diff gws [gateway_mac subnet]) port)
                                  (del_flows_to_hosted_port port))
                        (dict_values old_ports))"
    by (intro preserves_for_each preserves_seq preserves_del_flows_to_port[OF assms(1)]
          preserves_del_flows_to_hosted_port[OF assms(1)])
  show ?thesis
    unfolding subnet_updated_def cs gs prod.case Let_def
    by (intro preserves_seq preserves_with_local loop rest
          preserves_del_flows_to_other_subnets[OF assms(1)]
          preserves_add_flows_to_other_subnets[OF assms(1)])
qed

lemma dvr_added_inv:
  assumes st: "stable I C"
      and C: "\<And>sid sn pid p. (sid, sn) \<in> set new_dvr \<Longrightarrow> (pid, p) \<in> set (ports sn) \<Longrightarrow>
                C (dvr_id, sid, pid) p"
      and I: "I (a\<lparr>registered_routers := AList.update dvr_id new_dvr (registered_routers a)\<rparr>)"
      and run: "dvr_added dvr_id new_dvr a = (r, a')"
  shows "I a'"
proof -
  have "preserves I
          (for_each (\<lambda>(subnet_id, subnet).
               subnet_added dvr_id subnet_id subnet (dvr_cidrs new_dvr) (dvr_gateway_macs new_dvr))
             new_dvr)"
    by (rule preserves_for_each) (auto intro!: preserves_subnet_added[OF st] C)
  from preservesE[OF this I] run show ?thesis
    by (simp add: dvr_added_def Let_def)
qed

lemma dvr_updated_inv:
  assumes st: "stable I C"
      and C: "\<And>sid sn pid p. (sid, sn) \<in> set new_dvr \<Longrightarrow> (pid, p) \<in> set (ports sn) \<Longrightarrow>
                C (dvr_id, sid, pid) p"
      and old: "map_of (registered_routers a) dvr_id = Some old_dvr"
      and I: "I (a\<lparr>registered_routers :=
                     AList.update dvr_id new_dvr (AList.delete dvr_id (registered_routers a))\<rparr>)"
      and run: "dvr_updated dvr_id new_dvr a = (r, a')"
  shows "I a'"
proof -
  let ?body = "\<lambda>(subnet_id, subnet) (old_dvr', a).
                     case map_of old_dvr' subnet_id of
                       None \<Rightarrow>
                         on_agent (subnet_added dvr_id subnet_id subnet (dvr_cidrs new_dvr) (dvr_gateway_macs new_dvr))
                           (old_dvr', a)
                     | Some old_subnet \<Rightarrow>
                         seq (on_local (AList.delete subnet_id))
                           (on_agent
                              (subnet_updated dvr_id subnet_id (old_subnet, subnet)
                                 (dvr_cidrs old_dvr, dvr_cidrs new_dvr) (dvr_gateway_macs old_dvr, dvr_gateway_macs new_dvr)))
                           (old_dvr', a)"
  have body: "preserves (\<lambda>s. I (snd s)) (?body x)" if x: "x \<in> set new_dvr" for x
  proof (rule preservesI)
    fix s :: "dvr \<times> agent" and rs s'
    assume Is: "I (snd s)" and rn: "?body x s = (rs, s')"
    obtain sid sn where xx: "x = (sid, sn)" by (cases x)
    obtain od b where ss: "s = (od, b)" by (cases s)
    have Cx: "\<And>pid p. (pid, p) \<in> set (ports sn) \<Longrightarrow> C (dvr_id, sid, pid) p"
      using C x xx by blast
    show "I (snd s')"
    proof (cases "map_of od sid")
      case None
      have "preserves (\<lambda>s. I (snd s))
              (on_agent (subnet_added dvr_id sid sn (dvr_cidrs new_dvr) (dvr_gateway_macs new_dvr))
                :: (dvr \<times> agent) act)"
        by (intro preserves_on_agent preserves_subnet_added[OF st] Cx)
      from preservesE[OF this Is] rn None show ?thesis by (simp add: xx ss)
    next
      case (Some old_subnet)
      have "preserves (\<lambda>s. I (snd s))
              (seq (on_local (AList.delete sid))
                           (on_agent
                              (subnet_updated dvr_id sid (old_subnet, sn)
                                 (dvr_cidrs old_dvr, dvr_cidrs new_dvr) (dvr_gateway_macs old_dvr, dvr_gateway_macs new_dvr)))
                :: (dvr \<times> agent) act)"
        by (intro preserves_seq preserves_on_local preserves_on_agent
              preserves_subnet_updated[OF st] Cx)
      from preservesE[OF this Is] rn Some show ?thesis by (simp add: xx ss)
    qed
  qed
  have "preserves I
          (with_local old_dvr (for_each ?body new_dvr)
             (\<lambda>old_dvr'. for_each (\<lambda>subnet. subnet_deleted subnet (dvr_cidrs old_dvr) (dvr_gateway_macs old_dvr))
                    (dict_values old_dvr')))"
    by (intro preserves_with_local preserves_for_each body preserves_subnet_deleted[OF st])
  from preservesE[OF this I] run old show ?thesis
    by (simp add: dvr_updated_def Let_def)
qed

lemma dvr_deleted_inv:
  assumes st: "stable I C"
      and I: "I (a\<lparr>registered_routers := AList.delete dvr_id (registered_routers a)\<rparr>)" "I a"
      and run: "dvr_deleted dvr_id a = (r, a')"
  shows "I a'"
proof (cases "map_of (registered_routers a) dvr_id")
  case None
  then show ?thesis using run I(2) by (simp add: dvr_deleted_def)
next
  case (Some d)
  have "preserves I
          (for_each (\<lambda>subnet. subnet_deleted subnet (dvr_cidrs d) (dvr_gateway_macs d))
               (dict_values d))"
    by (intro preserves_for_each preserves_subnet_deleted[OF st])
  from preservesE[OF this I(1)] run Some show ?thesis
    by (simp add: dvr_deleted_def Let_def)
qed

lemma preserves_dvr_added:
  assumes "stable I (\<lambda>_ _. True)" and "reg_indep I"
  shows "preserves I (dvr_added dvr_id new_dvr)"
proof (rule preservesI)
  fix a r a' assume "I a" and run: "dvr_added dvr_id new_dvr a = (r, a')"
  then have "I (a\<lparr>registered_routers := AList.update dvr_id new_dvr (registered_routers a)\<rparr>)"
    using assms(2) by (simp add: reg_indep_def)
  from dvr_added_inv[OF assms(1) _ this run] show "I a'" by simp
qed

lemma preserves_dvr_updated:
  assumes "stable I (\<lambda>_ _. True)" and "reg_indep I"
  shows "preserves I (dvr_updated dvr_id new_dvr)"
proof (rule preservesI)
  fix a r a' assume I: "I a" and run: "dvr_updated dvr_id new_dvr a = (r, a')"
  show "I a'"
  proof (cases "map_of (registered_routers a) dvr_id")
    case None
    then show ?thesis using run I by (simp add: dvr_updated_def)
  next
    case (Some old_dvr)
    have "I (a\<lparr>registered_routers :=
                     AList.update dvr_id new_dvr (AList.delete dvr_id (registered_routers a))\<rparr>)"
      using assms(2) I by (simp add: reg_indep_def)
    from dvr_updated_inv[OF assms(1) _ Some this run] show ?thesis by simp
  qed
qed

lemma preserves_dvr_deleted:
  assumes "stable I (\<lambda>_ _. True)" and "reg_indep I"
  shows "preserves I (dvr_deleted dvr_id)"
proof (rule preservesI)
  fix a r a' assume I: "I a" and run: "dvr_deleted dvr_id a = (r, a')"
  have "I (a\<lparr>registered_routers := AList.delete dvr_id (registered_routers a)\<rparr>)"
    using assms(2) I by (simp add: reg_indep_def)
  from dvr_deleted_inv[OF assms(1) this I run] show "I a'" .
qed

lemma preserves_sync_routers:
  assumes "stable I (\<lambda>_ _. True)" and "reg_indep I"
  shows "preserves I (sync_routers sync_dvrs)"
proof (rule preservesI)
  fix a r a' assume I: "I a" and run: "sync_routers sync_dvrs a = (r, a')"
  let ?upd = "\<lambda>dvr_id (sync_dvrs, a).
                    case map_of sync_dvrs dvr_id of
                      None \<Rightarrow> (Raised KeyError, (sync_dvrs, a))
                    | Some new_dvr \<Rightarrow>
                        seq (on_local (AList.delete dvr_id))
                          (on_agent (dvr_updated dvr_id new_dvr))
                          (sync_dvrs, a)"
  have upd: "preserves (\<lambda>s. I (snd s)) (?upd x)" for x
  proof (rule preservesI)
    fix s :: "routers \<times> agent" and rs s'
    assume Is: "I (snd s)" and rn: "?upd x s = (rs, s')"
    obtain sd b where ss: "s = (sd, b)" by (cases s)
    show "I (snd s')"
    proof (cases "map_of sd x")
      case None
      then show ?thesis using rn Is ss by auto
    next
      case (Some new_dvr)
      have "preserves (\<lambda>s. I (snd s))
              (seq (on_local (AList.delete x)) (on_agent (dvr_updated x new_dvr))
                :: (routers \<times> agent) act)"
        by (intro preserves_seq preserves_on_local preserves_on_agent
              preserves_dvr_updated[OF assms])
      from preservesE[OF this Is] rn Some show ?thesis by (simp add: ss)
    qed
  qed
  have "preserves I
          (seq (for_each dvr_deleted
                  (filter (\<lambda>dvr_id. map_of sync_dvrs dvr_id = None)
                     (dict_keys (registered_routers a))))
             (with_local sync_dvrs
                (for_each ?upd
                   (filter (\<lambda>dvr_id. map_of sync_dvrs dvr_id \<noteq> None)
                      (dict_keys (registered_routers a))))
                (\<lambda>sync_dvrs. for_each (\<lambda>(dvr_id, new_dvr). dvr_added dvr_id new_dvr) sync_dvrs)))"
    by (intro preserves_seq preserves_with_local preserves_for_each upd
          preserves_dvr_deleted[OF assms])
       (auto intro!: preserves_dvr_added[OF assms])
  from preservesE[OF this I] run show "I a'"
    by (simp add: sync_routers_def Let_def)
qed

lemma int_add_flow_cases:
  "int_add_flow k a = (r, a') \<Longrightarrow>
     (r = Done \<and> a' = a\<lparr>int_br := (int_br a)\<lparr>flows := flows (int_br a) @ [AddFlow k], budget := map_option (\<lambda>n. n - 1) (budget (int_br a))\<rparr>\<rparr>) \<or>
     (r = Raised FlowError \<and> a' = a)"
  by (auto simp: int_add_flow_def br_issue_def split: option.splits nat.splits)

lemma int_delete_flows_cases:
  "int_delete_flows k a = (r, a') \<Longrightarrow>
     (r = Done \<and> a' = a\<lparr>int_br := (int_br a)\<lparr>flows := flows (int_br a) @ [DeleteFlows k], budget := map_option (\<lambda>n. n - 1) (budget (int_br a))\<rparr>\<rparr>) \<or>
     (r = Raised FlowError \<and> a' = a)"
  by (auto simp: int_delete_flows_def br_issue_def split: option.splits nat.splits)

lemma add_flows_to_hosted_port_cases:
  "add_flows_to_hosted_port rf p gw a = (r, a') \<Longrightarrow>
     a' = a \<or> (r = Done \<and> a' = clear_port_host rf a \<and> port_host p = host a \<and>
                get_port_ofport (int_br a) (port_name p) = INVALID_OFPORT) \<or>
     (\<exists>k. table k = Some 2 \<and> priority k = Some 3 \<and> int_add_flow k a = (r, a'))"
  by (auto simp: add_flows_to_hosted_port_def Let_def consts_simps split: if_splits)

lemma clear_port_host_fields [simp]:
  "int_br (clear_port_host rf a) = int_br a"
  "plugin_rpc (clear_port_host rf a) = plugin_rpc a"
  "int_ofports (clear_port_host rf a) = int_ofports a"
  "host (clear_port_host rf a) = host a"
  "sync_interval (clear_port_host rf a) = sync_interval a"
  "dvr_mac_address (clear_port_host rf a) = dvr_mac_address a"
  "registered_dvr_macs (clear_port_host rf a) = registered_dvr_macs a"
  "last_sync (clear_port_host rf a) = last_sync a"
  by (simp_all add: clear_port_host_def split: prod.splits)

lemma stable_same_frame: "stable (same_frame a0) (\<lambda>_ _. True)"
  unfolding stable_def preserves_def
  by (auto simp: same_frame_def dest!: int_add_flow_cases int_delete_flows_cases
           add_flows_to_hosted_port_cases)

lemma reg_indep_same_frame: "reg_indep (same_frame a0)"
  by (simp add: reg_indep_def same_frame_def)

lemma sync_routers_frame: "sync_routers T a = (r, a') \<Longrightarrow> same_frame a a'"
  using preservesE[OF preserves_sync_routers[OF stable_same_frame reg_indep_same_frame], of a a T r a']
  by (simp add: same_frame_def)

lemma fetches_append [simp]: "fetches (a\<lparr>plugin_rpc := plugin_rpc a @ [c]\<rparr>) = fetches a + (if c = GetOpenflowEwDvrs then 1 else 0)"
  by (simp add: fetches_def)

lemma fetches_int_br [simp]: "fetches (a\<lparr>int_br := b\<rparr>) = fetches a"
  by (simp add: fetches_def)

lemma sync_self_mac_set:
  "truthy (dvr_mac_address a) \<Longrightarrow> sync_self_mac mac_rep brs a = (Done, brs, a)"
  by (simp add: sync_self_mac_def)


lemma get_dvr_mac_address_fields [simp]:
  "int_br (get_dvr_mac_address m a) = int_br a"
  "registered_routers (get_dvr_mac_address m a) = registered_routers a"
  "registered_dvr_macs (get_dvr_mac_address m a) = registered_dvr_macs a"
  "last_sync (get_dvr_mac_address m a) = last_sync a"
  "sync_interval (get_dvr_mac_address m a) = sync_interval a"
  "host (get_dvr_mac_address m a) = host a"
  "int_ofports (get_dvr_mac_address m a) = int_ofports a"
  "fetches (get_dvr_mac_address m a) = fetches a"
  by (simp_all add: get_dvr_mac_address_def Let_def fetches_def split: reply.splits)

lemma sync_self_mac_effect:
  assumes "sync_self_mac mac_rep brs a = (r, brs', a1)"
  shows "registered_routers a1 = registered_routers a \<and>
         registered_dvr_macs a1 = registered_dvr_macs a \<and>
         last_sync a1 = last_sync a \<and> sync_interval a1 = sync_interval a \<and>
         host a1 = host a \<and> fetches a1 = fetches a \<and>
         (flows (int_br a1) = flows (int_br a) \<or>
          flows (int_br a1) = flows (int_br a) @ [self_mac_op a1])"
proof (cases "truthy (dvr_mac_address a)")
  case True
  then show ?thesis using assms by (simp add: sync_self_mac_set)
next
  case False
  let ?a = "get_dvr_mac_address mac_rep a"
  obtain r0 a0 where s: "set_src_to_dvr ?a = (r0, a0)" by (cases "set_src_to_dvr ?a")
  have a1: "a1 = a0" using assms False s
    by (auto simp: sync_self_mac_def split: outcome.splits prod.splits)
  have "a0 = ?a \<or> a0 = ?a\<lparr>int_br := (int_br ?a)\<lparr>flows := flows (int_br ?a) @ [self_mac_op ?a],
           budget := map_option (\<lambda>n. n - 1) (budget (int_br ?a))\<rparr>\<rparr>"
    using s by (auto simp: set_src_to_dvr_def Let_def self_mac_op_def consts_simps
        dest!: int_add_flow_cases split: if_splits)
  then show ?thesis
    unfolding a1 by (auto simp: self_mac_op_def)
qed

text \<open>
  C5 (as amended). When \<open>get_openflow_ew_dvrs\<close> raises, \<open>sync_dvr_ports\<close> leaves
  \<open>registered_routers\<close>, \<open>registered_dvr_macs\<close> and \<open>last_sync\<close> as they were and
  issues no topology flow operation. With the own MAC already set it returns normally and
  touches no bridge at all; with the own MAC unset, the only operation the integration
  bridge can have received is the own-MAC rule of the retry.
\<close>

theorem sync_fetch_failure:
  assumes "sync_dvr_ports mac_rep Fails now now_end phy_brs a = (r, brs, a')"
  shows "registered_routers a' = registered_routers a \<and>
         registered_dvr_macs a' = registered_dvr_macs a \<and>
         last_sync a' = last_sync a \<and>
         (truthy (dvr_mac_address a) \<longrightarrow> r = Done \<and> int_br a' = int_br a \<and> brs = phy_brs) \<and>
         (flows (int_br a') = flows (int_br a) \<or>
          flows (int_br a') = flows (int_br a) @ [self_mac_op a'])"
proof -
  obtain r1 brs1 a1 where s: "sync_self_mac mac_rep phy_brs a = (r1, brs1, a1)"
    by (cases "sync_self_mac mac_rep phy_brs a") auto
  have a': "a' = a1 \<or> a' = a1\<lparr>plugin_rpc := plugin_rpc a1 @ [GetOpenflowEwDvrs]\<rparr>"
    using assms s by (auto simp: sync_dvr_ports_def Let_def split: outcome.splits if_splits)
  have set: "truthy (dvr_mac_address a) \<Longrightarrow> r = Done \<and> int_br a' = int_br a \<and> brs = phy_brs"
    using assms by (auto simp: sync_dvr_ports_def sync_self_mac_set Let_def split: if_splits)
  from sync_self_mac_effect[OF s] a' set show ?thesis
    by (auto simp: self_mac_op_def)
qed

theorem sync_fetch_failure_witness:
  "sync_dvr_ports (Returns ''fa:99'') Fails 1000 1001 [] ex_unset =
     (Done, [], snd (snd (sync_dvr_ports (Returns ''fa:99'') Fails 1000 1001 [] ex_unset))) \<and>
   registered_routers (snd (snd (sync_dvr_ports (Returns ''fa:99'') Fails 1000 1001 [] ex_unset))) =
     registered_routers ex_unset \<and>
   last_sync (snd (snd (sync_dvr_ports (Returns ''fa:99'') Fails 1000 1001 [] ex_unset))) =
     last_sync ex_unset"
  using sync_fetch_failure [of "Returns ''fa:99''" 1000 1001 "[]" ex_unset Done "[]"
      "snd (snd (sync_dvr_ports (Returns ''fa:99'') Fails 1000 1001 [] ex_unset))"]
  by (simp add: sync_dvr_ports_def sync_self_mac_def ex_unset_def ex_agent_def ex_br_def
      truthy_def get_dvr_mac_address_def set_src_to_dvr_def int_add_flow_def br_issue_def
      setup_dvr_flows_on_phys_brs_def Let_def)

text \<open>
  C5 as stated fails: from a state with the own MAC unset, a tick whose retry obtains the
  MAC and whose topology fetch raises has issued the own-MAC rule.
\<close>

theorem sync_fetch_failure_counterexample:
  "flows (int_br ex_unset) = [] \<and>
   flows (int_br (snd (snd (sync_dvr_ports (Returns ''fa:99'') Fails 1000 1001 [] ex_unset)))) =
     [AddFlow (kw\<lparr>table := Some 2, priority := Some 1,
                  actions := Some ''mod_dl_src:fa:99,1''\<rparr>)]"
  by (simp add: sync_dvr_ports_def sync_self_mac_def ex_unset_def ex_agent_def ex_br_def
      truthy_def get_dvr_mac_address_def set_src_to_dvr_def int_add_flow_def br_issue_def
      setup_dvr_flows_on_phys_brs_def Let_def str_opt_def consts_simps)

lemma sync_dvr_ports_fetches:
  assumes "sync_dvr_ports m d now e brs a = (r, brs', a')"
  shows "sync_interval a' = sync_interval a \<and>
         (now - last_sync a < sync_interval a \<longrightarrow>
            fetches a' = fetches a \<and> last_sync a' = last_sync a) \<and>
         fetches a' \<le> fetches a + 1 \<and>
         (r = Done \<and> d \<noteq> Fails \<and> \<not> now - last_sync a < sync_interval a \<longrightarrow> last_sync a' = e)"
proof -
  obtain r1 brs1 a1 where s: "sync_self_mac m brs a = (r1, brs1, a1)"
    by (cases "sync_self_mac m brs a") auto
  note e1 = sync_self_mac_effect[OF s]
  show ?thesis
  proof (cases r1)
    case (Raised x)
    then have "a' = a1" using assms s by (simp add: sync_dvr_ports_def)
    then show ?thesis using e1 assms s Raised by (auto simp: sync_dvr_ports_def)
  next
    case Done
    show ?thesis
    proof (cases "now - last_sync a1 < sync_interval a1")
      case True
      then have "a' = a1" using assms s Done by (simp add: sync_dvr_ports_def)
      then show ?thesis using e1 True by auto
    next
      case False
      let ?a2 = "a1\<lparr>plugin_rpc := plugin_rpc a1 @ [GetOpenflowEwDvrs]\<rparr>"
      show ?thesis
      proof (cases d)
        case Fails
        then have "a' = ?a2" using assms s Done False by (simp add: sync_dvr_ports_def Let_def)
        then show ?thesis using e1 False Fails by auto
      next
        case (Returns T)
        obtain r3 a3 where sr: "sync_routers T ?a2 = (r3, a3)" by (cases "sync_routers T ?a2")
        note fr = sync_routers_frame[OF sr]
        have f3: "fetches a3 = fetches a1 + 1" "sync_interval a3 = sync_interval a1"
          using fr by (simp_all add: same_frame_def fetches_def)
        have "(r = Done \<and> a' = a3\<lparr>last_sync := e\<rparr>) \<or> (r \<noteq> Done \<and> a' = a3)"
          using assms s Done False Returns sr
          by (auto simp: sync_dvr_ports_def Let_def split: outcome.splits)
        then show ?thesis using e1 False f3 by (auto simp: fetches_def)
      qed
    qed
  qed
qed

text \<open>
  C6 (as amended). A topology fetch is attempted only when at least \<open>sync_interval\<close>
  seconds have passed since \<open>last_sync\<close>. Of two invocations less than
  \<open>sync_interval\<close> seconds apart, the first of which returned normally on a fetch that
  answered, at most one fetches the topology.
\<close>

theorem sync_throttle:
  assumes first: "sync_dvr_ports m1 (Returns T) now1 end1 brs a = (Done, brs1, a1)"
      and second: "sync_dvr_ports m2 d2 now2 end2 brs1 a1 = (r2, brs2, a2)"
      and t: "now1 \<le> end1" "end1 \<le> now2" "now2 - now1 < sync_interval a"
  shows "(now1 - last_sync a < sync_interval a \<longrightarrow> fetches a1 = fetches a) \<and>
         (now2 - last_sync a1 < sync_interval a1 \<longrightarrow> fetches a2 = fetches a1) \<and>
         fetches a2 \<le> fetches a + 1"
proof -
  note f1 = sync_dvr_ports_fetches[OF first]
  note f2 = sync_dvr_ports_fetches[OF second]
  show ?thesis
  proof (cases "now1 - last_sync a < sync_interval a")
    case True
    then show ?thesis using f1 f2 by auto
  next
    case False
    then have "last_sync a1 = end1" using f1 by simp
    then have "now2 - last_sync a1 < sync_interval a1" using t f1 by simp
    then show ?thesis using f1 f2 False by auto
  qed
qed

lemma ex_sync_1: "sync_dvr_ports Fails (Returns []) 1000 1001 [] ex_agent =
    (Done, [], ex_agent\<lparr>plugin_rpc := [GetOpenflowEwDvrs], last_sync := 1001\<rparr>)"
  by (simp add: sync_dvr_ports_def sync_self_mac_def ex_agent_def ex_br_def truthy_def
      sync_routers_def Let_def dict_keys_def seq_def with_local_def)

theorem sync_throttle_witness:
  "sync_dvr_ports Fails (Returns []) 1000 1001 [] ex_agent =
     (Done, [], ex_agent\<lparr>plugin_rpc := [GetOpenflowEwDvrs], last_sync := 1001\<rparr>) \<and>
   sync_dvr_ports Fails (Returns []) 1100 1101 []
       (ex_agent\<lparr>plugin_rpc := [GetOpenflowEwDvrs], last_sync := 1001\<rparr>) =
     (Done, [], ex_agent\<lparr>plugin_rpc := [GetOpenflowEwDvrs], last_sync := 1001\<rparr>) \<and>
   (1100::int) - 1000 < sync_interval ex_agent \<and>
   fetches (ex_agent\<lparr>plugin_rpc := [GetOpenflowEwDvrs], last_sync := 1001\<rparr>) \<le> fetches ex_agent + 1"
proof -
  have 2: "sync_dvr_ports Fails (Returns []) 1100 1101 []
       (ex_agent\<lparr>plugin_rpc := [GetOpenflowEwDvrs], last_sync := 1001\<rparr>) =
     (Done, [], ex_agent\<lparr>plugin_rpc := [GetOpenflowEwDvrs], last_sync := 1001\<rparr>)"
    by (simp add: sync_dvr_ports_def sync_self_mac_def ex_agent_def ex_br_def truthy_def)
  have 3: "(1100::int) - 1000 < sync_interval ex_agent" by (simp add: ex_agent_def)
  from sync_throttle[OF ex_sync_1 2 _ _ 3] ex_sync_1 2 3 show ?thesis by simp
qed

text \<open>
  C6 as stated fails: when the fetch of the first invocation raises, \<open>last_sync\<close> stays
  and the invocation one second later fetches again.
\<close>

theorem sync_throttle_counterexample:
  "fetches ex_agent = 0 \<and> (1001::int) - 1000 < sync_interval ex_agent \<and>
   fetches (snd (snd (sync_dvr_ports Fails Fails 1001 1002 []
      (snd (snd (sync_dvr_ports Fails Fails 1000 1001 [] ex_agent)))))) = 2"
  by (simp add: sync_dvr_ports_def sync_self_mac_def ex_agent_def ex_br_def truthy_def
      Let_def fetches_def)






lemma port_upto_host_refl [simp]: "port_upto_host p p"
  by (simp add: port_upto_host_def)

lemma ports_upto_host_refl: "list_all2 (\<lambda>x y. fst y = fst x \<and> port_upto_host (snd x) (snd y)) ps ps"
  by (induction ps) auto

lemma subnet_upto_host_refl [simp]: "subnet_upto_host s s"
  by (simp add: subnet_upto_host_def ports_upto_host_refl)

lemma dvr_upto_host_refl [simp]: "dvr_upto_host d d"
  unfolding dvr_upto_host_def by (induction d) auto













subsection \<open>Reconciling an unchanged topology\<close>

lemma set_diff_empty: "set xs \<subseteq> set ys \<Longrightarrow> set_diff xs ys = []"
  by (auto simp: set_diff_def filter_empty_conv)

lemma del_flows_to_port_Nil [simp]: "del_flows_to_port [] p a = (Done, a)"
  by (simp add: del_flows_to_port_def)

lemma add_flows_to_port_Nil [simp]: "add_flows_to_port [] p seg a = (Done, a)"
  by (simp add: add_flows_to_port_def)

lemma del_flows_to_other_subnets_Nil [simp]: "del_flows_to_other_subnets g [] a = (Done, a)"
  by (simp add: del_flows_to_other_subnets_def)

lemma add_flows_to_other_subnets_Nil [simp]: "add_flows_to_other_subnets g [] a = (Done, a)"
  by (simp add: add_flows_to_other_subnets_def)

lemma known_port_same:
  assumes "map_of old k = Some p" and "set old_gws = set gws"
  shows "subnet_updated_port dvr_id sid sn old_gws gws (k, p) (old, a) =
           (Done, (AList.delete k old, a))"
  using assms
  by (simp add: subnet_updated_port_def Let_def set_diff_empty seq_def on_agent_def on_local_def
      port_moved_out_of_host_def port_moved_into_host_def)

lemma known_ports_same:
  assumes "distinct (map fst ps)" and "\<forall>(k, p) \<in> set ps. map_of old k = Some p"
      and "set old_gws = set gws"
  shows "for_each (subnet_updated_port dvr_id sid sn old_gws gws) ps (old, a) =
           (Done, (filter (\<lambda>x. fst x \<notin> fst ` set ps) old, a))"
  using assms(1,2)
proof (induction ps arbitrary: old)
  case Nil
  then show ?case by simp
next
  case (Cons x ps)
  obtain k p where x: "x = (k, p)" by (cases x)
  have step: "subnet_updated_port dvr_id sid sn old_gws gws (k, p) (old, a) =
           (Done, (AList.delete k old, a))"
    using Cons.prems(2) x by (intro known_port_same assms(3)) simp
  have d: "distinct (map fst ps)" using Cons.prems(1) by simp
  have m: "\<forall>(k', p') \<in> set ps. map_of (AList.delete k old) k' = Some p'"
    using Cons.prems x by (force simp: delete_conv')
  have f: "filter (\<lambda>x. fst x \<notin> fst ` set ps) (AList.delete k old) =
           filter (\<lambda>y. fst y \<notin> fst ` set (x # ps)) old"
    unfolding AList.delete_eq x by (auto intro: filter_cong)
  show ?case
    using Cons.IH[OF d m] f
    by (subst for_each.simps, subst seq_def) (simp add: x step)
qed

lemma dict_rel_lookup:
  "dict_rel R d' d \<Longrightarrow> distinct (map fst d) \<Longrightarrow> (k, v) \<in> set d \<Longrightarrow>
   \<exists>v'. map_of d' k = Some v' \<and> R v' v"
proof -
  assume r: "dict_rel R d' d" and "distinct (map fst d)" and "(k, v) \<in> set d"
  then have "map_of d k = Some v" by simp
  moreover have "rel_option R (map_of d' k) (map_of d k)" using r by (simp add: dict_rel_def)
  ultimately show ?thesis by (cases "map_of d' k") auto
qed

lemma dict_rel_keys:
  assumes "dict_rel R d' d"
  shows "filter (\<lambda>x. fst x \<notin> fst ` set d) d' = []"
proof -
  have "fst x \<in> fst ` set d" if "x \<in> set d'" for x
  proof -
    have "fst x \<in> fst ` set d'" using that by (rule imageI)
    then have "map_of d' (fst x) \<noteq> None" by (simp add: map_of_eq_None_iff)
    moreover have "rel_option R (map_of d' (fst x)) (map_of d (fst x))"
      using assms by (simp add: dict_rel_def)
    ultimately have "map_of d (fst x) \<noteq> None"
      by (cases "map_of d' (fst x)"; cases "map_of d (fst x)") auto
    then show ?thesis by (simp add: map_of_eq_None_iff)
  qed
  then show ?thesis by (auto simp: filter_empty_conv)
qed

lemma subnet_updated_same:
  assumes eq: "subnet_eq old_sn sn" and d: "distinct (map fst (ports sn))"
      and c: "set old_cidrs = set cidrs" and g: "set old_gws = set gws"
  shows "subnet_updated dvr_id sid (old_sn, sn) (old_cidrs, cidrs) (old_gws, gws) a = (Done, a)"
proof -
  have pr: "dict_rel (=) (ports old_sn) (ports sn)" using eq by (simp add: subnet_eq_def)
  have m: "\<forall>(k, p) \<in> set (ports sn). map_of (ports old_sn) k = Some p"
    using dict_rel_lookup[OF pr d] by auto
  have loop: "for_each (subnet_updated_port dvr_id sid sn old_gws gws) (ports sn) (ports old_sn, a) =
           (Done, ([], a))"
    using known_ports_same[OF d m g] dict_rel_keys[OF pr] by simp
  show ?thesis
    using c g
    by (simp add: subnet_updated_def Let_def set_diff_empty seq_def with_local_def loop
        dict_values_def)
qed

lemma dict_rel_lookup2:
  assumes r: "dict_rel R d' d" and "distinct (map fst d')" and "(k, v') \<in> set d'"
  shows "\<exists>v. map_of d k = Some v \<and> R v' v"
proof -
  have "map_of d' k = Some v'" using assms by simp
  moreover have "rel_option R (map_of d' k) (map_of d k)" using r by (simp add: dict_rel_def)
  ultimately show ?thesis by (cases "map_of d k") auto
qed

lemma dvr_eq_sets:
  assumes eq: "dvr_eq old new" and d: "distinct (map fst old)" "distinct (map fst new)"
  shows "set (dvr_cidrs old) = set (dvr_cidrs new)"
    and "set (dvr_gateway_macs old) = set (dvr_gateway_macs new)"
proof -
  have a: "\<exists>s'. s' \<in> set (map snd new) \<and> subnet_eq s s'" if "s \<in> set (map snd old)" for s
  proof -
    from that obtain k where "(k, s) \<in> set old" by auto
    from dict_rel_lookup2[OF eq[unfolded dvr_eq_def] d(1) this]
    obtain s' where s': "map_of new k = Some s'" "subnet_eq s s'" by blast
    from map_of_SomeD[OF s'(1)] have "s' \<in> set (map snd new)" by force
    then show ?thesis using s'(2) by blast
  qed
  have b: "\<exists>s. s \<in> set (map snd old) \<and> subnet_eq s s'" if "s' \<in> set (map snd new)" for s'
  proof -
    from that obtain k where "(k, s') \<in> set new" by auto
    from dict_rel_lookup[OF eq[unfolded dvr_eq_def] d(2) this]
    obtain s where s: "map_of old k = Some s" "subnet_eq s s'" by blast
    from map_of_SomeD[OF s(1)] have "s \<in> set (map snd old)" by force
    then show ?thesis using s(2) by blast
  qed
  have img: "f ` set (map snd old) = f ` set (map snd new)"
    if f: "\<And>s s'. subnet_eq s s' \<Longrightarrow> f s = f s'" for f :: "subnet \<Rightarrow> string"
  proof (intro set_eqI iffI)
    fix x assume "x \<in> f ` set (map snd old)"
    then obtain s where s: "s \<in> set (map snd old)" "x = f s" by blast
    from a[OF s(1)] obtain s' where "s' \<in> set (map snd new)" "subnet_eq s s'" by blast
    then show "x \<in> f ` set (map snd new)" using s(2) f by blast
  next
    fix x assume "x \<in> f ` set (map snd new)"
    then obtain s' where s: "s' \<in> set (map snd new)" "x = f s'" by blast
    from b[OF s(1)] obtain s where "s \<in> set (map snd old)" "subnet_eq s s'" by blast
    then show "x \<in> f ` set (map snd old)" using s(2) f by (metis imageI)
  qed
  show "set (dvr_cidrs old) = set (dvr_cidrs new)"
    using img[of cidr] by (simp add: dvr_cidrs_def dict_values_def subnet_eq_def image_image)
  show "set (dvr_gateway_macs old) = set (dvr_gateway_macs new)"
    using img[of gateway_mac]
    by (simp add: dvr_gateway_macs_def dict_values_def subnet_eq_def image_image)
qed

lemma known_subnets_same:
  assumes c: "set old_cidrs = set cidrs" and g: "set old_gws = set gws"
  shows "distinct (map fst ss) \<Longrightarrow>
         \<forall>(k, sn) \<in> set ss. distinct (map fst (ports sn)) \<and>
            (\<exists>s0. map_of od k = Some s0 \<and> subnet_eq s0 sn) \<Longrightarrow>
         for_each
           (\<lambda>(subnet_id, subnet) (old_dvr, a).
               case map_of old_dvr subnet_id of
                 None \<Rightarrow> on_agent (subnet_added dvr_id subnet_id subnet cidrs gws) (old_dvr, a)
               | Some old_subnet \<Rightarrow>
                   seq (on_local (AList.delete subnet_id))
                     (on_agent
                        (subnet_updated dvr_id subnet_id (old_subnet, subnet)
                           (old_cidrs, cidrs) (old_gws, gws)))
                     (old_dvr, a))
           ss (od, a) =
         (Done, (filter (\<lambda>x. fst x \<notin> fst ` set ss) od, a))"
proof (induction ss arbitrary: od)
  case Nil
  then show ?case by simp
next
  case (Cons x ss)
  obtain k sn where x: "x = (k, sn)" by (cases x)
  from Cons.prems(2) x obtain s0 where s0: "map_of od k = Some s0" "subnet_eq s0 sn"
    and dp: "distinct (map fst (ports sn))" by auto
  have d: "distinct (map fst ss)" using Cons.prems(1) by simp
  have m: "\<forall>(k', sn') \<in> set ss. distinct (map fst (ports sn')) \<and>
            (\<exists>s0. map_of (AList.delete k od) k' = Some s0 \<and> subnet_eq s0 sn')"
    using Cons.prems x by (force simp: delete_conv')
  have f: "filter (\<lambda>x. fst x \<notin> fst ` set ss) (AList.delete k od) =
           filter (\<lambda>y. fst y \<notin> fst ` set (x # ss)) od"
    unfolding AList.delete_eq x by (auto intro: filter_cong)
  show ?case
    using Cons.IH[OF d m] f
    by (subst for_each.simps, subst seq_def)
       (simp add: x s0 seq_def on_local_def on_agent_def subnet_updated_same[OF s0(2) dp c g])
qed

lemma dvr_updated_same:
  assumes old: "map_of (registered_routers a) dvr_id = Some old"
      and eq: "dvr_eq old new" and wf: "wf_dvr old" "wf_dvr new"
  shows "dvr_updated dvr_id new a =
           (Done, a\<lparr>registered_routers :=
                      AList.update dvr_id new (AList.delete dvr_id (registered_routers a))\<rparr>)"
proof -
  have d: "distinct (map fst old)" "distinct (map fst new)" using wf by (simp_all add: wf_dvr_def)
  note sets = dvr_eq_sets[OF eq d]
  have m: "\<forall>(k, sn) \<in> set new. distinct (map fst (ports sn)) \<and>
            (\<exists>s0. map_of old k = Some s0 \<and> subnet_eq s0 sn)"
  proof (clarify, intro conjI)
    fix k sn assume in_new: "(k, sn) \<in> set new"
    then show "distinct (map fst (ports sn))"
      using wf(2) by (force simp: wf_dvr_def list_all_iff dict_values_def)
    show "\<exists>s0. map_of old k = Some s0 \<and> subnet_eq s0 sn"
      using dict_rel_lookup[OF eq[unfolded dvr_eq_def] d(2) in_new] .
  qed
  show ?thesis
    using known_subnets_same[OF sets d(2) m] dict_rel_keys[OF eq[unfolded dvr_eq_def]]
    by (simp add: dvr_updated_def old Let_def with_local_def dict_values_def)
qed

lemma dict_rel_keys2:
  assumes "dict_rel R d' d"
  shows "filter (\<lambda>x. fst x \<notin> fst ` set d') d = []"
proof -
  have "fst x \<in> fst ` set d'" if "x \<in> set d" for x
  proof -
    have "fst x \<in> fst ` set d" using that by (rule imageI)
    then have "map_of d (fst x) \<noteq> None" by (simp add: map_of_eq_None_iff)
    moreover have "rel_option R (map_of d' (fst x)) (map_of d (fst x))"
      using assms by (simp add: dict_rel_def)
    ultimately have "map_of d' (fst x) \<noteq> None"
      by (cases "map_of d' (fst x)"; cases "map_of d (fst x)") auto
    then show ?thesis by (simp add: map_of_eq_None_iff)
  qed
  then show ?thesis by (auto simp: filter_empty_conv)
qed

lemma known_routers_same:
  "distinct ks \<Longrightarrow>
   \<forall>k \<in> set ks. \<exists>new old. map_of sd k = Some new \<and> map_of (registered_routers a) k = Some old \<and>
       dvr_eq old new \<and> wf_dvr old \<and> wf_dvr new \<Longrightarrow>
   \<exists>rs. for_each
          (\<lambda>dvr_id (sync_dvrs, a).
              case map_of sync_dvrs dvr_id of
                None \<Rightarrow> (Raised KeyError, (sync_dvrs, a))
              | Some new_dvr \<Rightarrow>
                  seq (on_local (AList.delete dvr_id)) (on_agent (dvr_updated dvr_id new_dvr))
                    (sync_dvrs, a))
          ks (sd, a) =
        (Done, (filter (\<lambda>x. fst x \<notin> set ks) sd, a\<lparr>registered_routers := rs\<rparr>)) \<and>
        (\<forall>j. map_of rs j = (if j \<in> set ks then map_of sd j else map_of (registered_routers a) j))"
proof (induction ks arbitrary: sd a)
  case Nil
  show ?case by (rule exI[of _ "registered_routers a"]) simp
next
  case (Cons k ks)
  from Cons.prems(2) obtain new old where
    new: "map_of sd k = Some new" and old: "map_of (registered_routers a) k = Some old"
    and eq: "dvr_eq old new" and wf: "wf_dvr old" "wf_dvr new" by auto
  let ?a1 = "a\<lparr>registered_routers := AList.update k new (AList.delete k (registered_routers a))\<rparr>"
  let ?sd1 = "AList.delete k sd"
  have k: "k \<notin> set ks" and d: "distinct ks" using Cons.prems(1) by simp_all
  have pre: "\<forall>k' \<in> set ks. \<exists>new old. map_of ?sd1 k' = Some new \<and>
       map_of (registered_routers ?a1) k' = Some old \<and> dvr_eq old new \<and> wf_dvr old \<and> wf_dvr new"
  proof
    fix k' assume k': "k' \<in> set ks"
    then have ne: "k' \<noteq> k" using k by auto
    from Cons.prems(2) k' obtain new' old' where
      "map_of sd k' = Some new'" "map_of (registered_routers a) k' = Some old'"
      "dvr_eq old' new'" "wf_dvr old'" "wf_dvr new'" by auto
    then show "\<exists>new old. map_of ?sd1 k' = Some new \<and>
       map_of (registered_routers ?a1) k' = Some old \<and> dvr_eq old new \<and> wf_dvr old \<and> wf_dvr new"
      using ne by (auto simp: delete_conv' update_conv')
  qed
  from Cons.IH[OF d pre] obtain rs where
    run: "for_each
          (\<lambda>dvr_id (sync_dvrs, a).
              case map_of sync_dvrs dvr_id of
                None \<Rightarrow> (Raised KeyError, (sync_dvrs, a))
              | Some new_dvr \<Rightarrow>
                  seq (on_local (AList.delete dvr_id)) (on_agent (dvr_updated dvr_id new_dvr))
                    (sync_dvrs, a))
          ks (?sd1, ?a1) =
        (Done, (filter (\<lambda>x. fst x \<notin> set ks) ?sd1, ?a1\<lparr>registered_routers := rs\<rparr>))"
    and rs: "\<forall>j. map_of rs j = (if j \<in> set ks then map_of ?sd1 j else map_of (registered_routers ?a1) j)"
    by blast
  have f: "filter (\<lambda>x. fst x \<notin> set ks) ?sd1 = filter (\<lambda>x. fst x \<notin> set (k # ks)) sd"
    unfolding AList.delete_eq by (auto intro: filter_cong)
  have step: "(case map_of sd k of
                None \<Rightarrow> (Raised KeyError, (sd, a))
              | Some new_dvr \<Rightarrow>
                  seq (on_local (AList.delete k)) (on_agent (dvr_updated k new_dvr)) (sd, a)) =
              (Done, (?sd1, ?a1))"
    by (simp add: new seq_def on_local_def on_agent_def dvr_updated_same[OF old eq wf])
  have "for_each
          (\<lambda>dvr_id (sync_dvrs, a).
              case map_of sync_dvrs dvr_id of
                None \<Rightarrow> (Raised KeyError, (sync_dvrs, a))
              | Some new_dvr \<Rightarrow>
                  seq (on_local (AList.delete dvr_id)) (on_agent (dvr_updated dvr_id new_dvr))
                    (sync_dvrs, a))
          (k # ks) (sd, a) =
        (Done, (filter (\<lambda>x. fst x \<notin> set (k # ks)) sd, a\<lparr>registered_routers := rs\<rparr>))"
    using run f by (subst for_each.simps, subst seq_def) (simp add: step)
  moreover have "\<forall>j. map_of rs j = (if j \<in> set (k # ks) then map_of sd j else map_of (registered_routers a) j)"
    using rs k new by (auto simp: delete_conv' update_conv')
  ultimately show ?case by blast
qed

lemma sync_routers_same:
  assumes eq: "routers_eq (registered_routers a) T"
      and wf: "wf_routers (registered_routers a)" "wf_routers T"
  shows "\<exists>rs. sync_routers T a = (Done, a\<lparr>registered_routers := rs\<rparr>) \<and> map_of rs = map_of T"
proof -
  let ?ks = "dict_keys (registered_routers a)"
  have rel: "rel_option dvr_eq (map_of (registered_routers a) k) (map_of T k)" for k
    using eq by (simp add: routers_eq_def dict_rel_def)
  have inT: "map_of T k \<noteq> None" if "k \<in> set ?ks" for k
  proof -
    have "map_of (registered_routers a) k \<noteq> None"
      using that by (simp add: dict_keys_def map_of_eq_None_iff)
    then show ?thesis using rel[of k]
      by (cases "map_of (registered_routers a) k"; cases "map_of T k") auto
  qed
  have del: "filter (\<lambda>dvr_id. map_of T dvr_id = None) ?ks = []"
    using inT by (auto simp: filter_empty_conv)
  have upd: "filter (\<lambda>dvr_id. map_of T dvr_id \<noteq> None) ?ks = ?ks"
    using inT by (auto simp: filter_id_conv)
  have d: "distinct ?ks" using wf(1) by (simp add: wf_routers_def dict_keys_def)
  have pre: "\<forall>k \<in> set ?ks. \<exists>new old. map_of T k = Some new \<and>
       map_of (registered_routers a) k = Some old \<and> dvr_eq old new \<and> wf_dvr old \<and> wf_dvr new"
  proof
    fix k assume k: "k \<in> set ?ks"
    from inT[OF k] obtain new where new: "map_of T k = Some new" by auto
    then obtain old where old: "map_of (registered_routers a) k = Some old" "dvr_eq old new"
      using rel[of k] by (cases "map_of (registered_routers a) k") auto
    have "wf_dvr new" using wf(2) map_of_SomeD[OF new]
      by (force simp: wf_routers_def list_all_iff dict_values_def)
    moreover have "wf_dvr old" using wf(1) map_of_SomeD[OF old(1)]
      by (force simp: wf_routers_def list_all_iff dict_values_def)
    ultimately show "\<exists>new old. map_of T k = Some new \<and>
       map_of (registered_routers a) k = Some old \<and> dvr_eq old new \<and> wf_dvr old \<and> wf_dvr new"
      using new old by blast
  qed
  from known_routers_same[OF d pre] obtain rs where
    run: "for_each
          (\<lambda>dvr_id (sync_dvrs, a).
              case map_of sync_dvrs dvr_id of
                None \<Rightarrow> (Raised KeyError, (sync_dvrs, a))
              | Some new_dvr \<Rightarrow>
                  seq (on_local (AList.delete dvr_id)) (on_agent (dvr_updated dvr_id new_dvr))
                    (sync_dvrs, a))
          ?ks (T, a) =
        (Done, (filter (\<lambda>x. fst x \<notin> set ?ks) T, a\<lparr>registered_routers := rs\<rparr>))"
    and rs: "\<forall>j. map_of rs j = (if j \<in> set ?ks then map_of T j else map_of (registered_routers a) j)"
    by blast
  have left: "filter (\<lambda>x. fst x \<notin> set ?ks) T = []"
    using dict_rel_keys2[OF eq[unfolded routers_eq_def]] by (simp add: dict_keys_def)
  have "map_of rs j = map_of T j" for j
  proof (cases "j \<in> set ?ks")
    case True
    then show ?thesis using rs by simp
  next
    case False
    then have "map_of (registered_routers a) j = None"
      by (simp add: dict_keys_def map_of_eq_None_iff)
    moreover from this have "map_of T j = None" using rel[of j] by (cases "map_of T j") auto
    ultimately show ?thesis using rs False by simp
  qed
  then have "map_of rs = map_of T" by (rule ext)
  moreover have "sync_routers T a = (Done, a\<lparr>registered_routers := rs\<rparr>)"
    unfolding sync_routers_def Let_def del upd
    by (simp add: seq_def with_local_def run left)
  ultimately show ?thesis by blast
qed

text \<open>
  C1 (as amended). When \<open>registered_routers\<close> equals the topology \<open>T\<close> that the
  fetch returns, \<open>sync_dvr_ports\<close> issues no topology flow operation, whatever the time
  and the state of the bridge: with the own MAC set it returns normally and touches no
  bridge at all; with the own MAC unset, the only operation the integration bridge can
  have received is the own-MAC rule of the retry.
\<close>

theorem sync_idempotent:
  assumes eq: "routers_eq (registered_routers a) T"
      and wf: "wf_routers (registered_routers a)" "wf_routers T"
      and run: "sync_dvr_ports mac_rep (Returns T) now now_end phy_brs a = (r, brs, a')"
  shows "(truthy (dvr_mac_address a) \<longrightarrow> r = Done \<and> int_br a' = int_br a \<and> brs = phy_brs) \<and>
         (flows (int_br a') = flows (int_br a) \<or>
          flows (int_br a') = flows (int_br a) @ [self_mac_op a'])"
proof -
  obtain r1 brs1 a1 where s: "sync_self_mac mac_rep phy_brs a = (r1, brs1, a1)"
    by (cases "sync_self_mac mac_rep phy_brs a") auto
  note e1 = sync_self_mac_effect[OF s]
  let ?a2 = "a1\<lparr>plugin_rpc := plugin_rpc a1 @ [GetOpenflowEwDvrs]\<rparr>"
  have "routers_eq (registered_routers ?a2) T" "wf_routers (registered_routers ?a2)"
    using eq wf(1) e1 by simp_all
  from sync_routers_same[OF this wf(2)] obtain rs where
    sr: "sync_routers T ?a2 = (Done, ?a2\<lparr>registered_routers := rs\<rparr>)" by blast
  have a': "a' = a1 \<or> a' = ?a2\<lparr>registered_routers := rs, last_sync := now_end\<rparr>"
    using run s sr by (auto simp: sync_dvr_ports_def Let_def split: outcome.splits if_splits)
  have set: "r = Done \<and> int_br a' = int_br a \<and> brs = phy_brs" if t: "truthy (dvr_mac_address a)"
  proof -
    have "r1 = Done" "brs1 = phy_brs" "a1 = a" using s sync_self_mac_set[OF t] by simp_all
    then show ?thesis using run s sr
      by (auto simp: sync_dvr_ports_def Let_def split: if_splits)
  qed
  from e1 a' set show ?thesis by (auto simp: self_mac_op_def)
qed

lemma dict_rel_refl: "(\<And>x. R x x) \<Longrightarrow> dict_rel R d d"
  by (simp add: dict_rel_def option.rel_refl)

lemma subnet_eq_refl [simp]: "subnet_eq s s"
  by (simp add: subnet_eq_def dict_rel_refl)

lemma dvr_eq_refl [simp]: "dvr_eq d d"
  by (simp add: dvr_eq_def dict_rel_refl)

lemma routers_eq_refl [simp]: "routers_eq T T"
  by (simp add: routers_eq_def dict_rel_refl)

lemma stable_regs_fixed:
  "stable (regs_fixed a0 rs)
     (\<lambda>_ p. port_host p = host a0 \<longrightarrow> get_port_ofport (int_br a0) (port_name p) \<noteq> INVALID_OFPORT)"
proof -
  have del: "preserves (regs_fixed a0 rs) (int_delete_flows k)" for k
    by (rule preservesI) (auto dest!: int_delete_flows_cases simp: regs_fixed_def)
  have add: "preserves (\<lambda>a. regs_fixed a0 rs a \<and> truthy (dvr_mac_address a)) (int_add_flow k)" for k
    by (rule preservesI) (auto dest!: int_add_flow_cases simp: regs_fixed_def)
  have hosted: "preserves (regs_fixed a0 rs) (add_flows_to_hosted_port rf p gw)"
    if C: "port_host p = host a0 \<longrightarrow> get_port_ofport (int_br a0) (port_name p) \<noteq> INVALID_OFPORT"
    for rf p gw
  proof (rule preservesI)
    fix a r a' assume I: "regs_fixed a0 rs a" and run: "add_flows_to_hosted_port rf p gw a = (r, a')"
    have "get_port_ofport (int_br a) (port_name p) = get_port_ofport (int_br a0) (port_name p)"
      using I by (simp add: regs_fixed_def get_port_ofport_def)
    with add_flows_to_hosted_port_cases[OF run] show "regs_fixed a0 rs a'"
      using I C by (auto dest!: int_add_flow_cases simp: regs_fixed_def)
  qed
  show ?thesis unfolding stable_def using del add hosted by simp
qed

text \<open>
  C2 (as amended). A tick that reconciles a topology of one router from an empty registry
  (own MAC set, no port hosted here and not ready) and is aborted by the bridge, after
  whatever prefix of its flow operations, has already recorded the router: the registry
  equals the topology and \<open>last_sync\<close> is unchanged. The next tick with the same
  topology, whatever the bridge then accepts, returns normally and issues no flow
  operation: the operations that were not applied are not derived again.
\<close>

theorem failed_tick_not_reapplied:
  assumes mac: "truthy (dvr_mac_address a)" and empty: "registered_routers a = []"
      and wf: "wf_dvr new_dvr" and ready: "all_ready a new_dvr"
      and first: "sync_dvr_ports m1 (Returns [(dvr_id, new_dvr)]) now1 end1 brs a = (Raised e, brs1, a1)"
      and second: "sync_dvr_ports m2 (Returns [(dvr_id, new_dvr)]) now2 end2 brs1
                     (a1\<lparr>int_br := (int_br a1)\<lparr>budget := b\<rparr>\<rparr>) = (r2, brs2, a2)"
  shows "registered_routers a1 = [(dvr_id, new_dvr)] \<and> last_sync a1 = last_sync a \<and>
         r2 = Done \<and> flows (int_br a2) = flows (int_br a1)"
proof -
  let ?a = "a\<lparr>plugin_rpc := plugin_rpc a @ [GetOpenflowEwDvrs]\<rparr>"
  let ?ar = "?a\<lparr>registered_routers := AList.update dvr_id new_dvr (registered_routers ?a)\<rparr>"
  have sr: "sync_routers [(dvr_id, new_dvr)] ?a = dvr_added dvr_id new_dvr ?a"
    using empty
    by (cases "dvr_added dvr_id new_dvr ?a")
       (auto simp: sync_routers_def Let_def dict_keys_def seq_def with_local_def
             split: outcome.splits)
  have run: "dvr_added dvr_id new_dvr ?a = (Raised e, a1)"
    using first mac sr
    by (auto simp: sync_dvr_ports_def sync_self_mac_set Let_def split: if_splits outcome.splits prod.splits)
  have "regs_fixed a [(dvr_id, new_dvr)] ?ar" using empty by (simp add: regs_fixed_def)
  from dvr_added_inv[OF stable_regs_fixed _ this run]
  have regs: "registered_routers a1 = [(dvr_id, new_dvr)]"
    using ready by (force simp: regs_fixed_def all_ready_def dict_values_def)
  have "same_frame ?a ?ar" by (simp add: same_frame_def)
  from dvr_added_inv[OF stable_same_frame _ this run]
  have fr: "same_frame ?a a1" by simp
  let ?b = "a1\<lparr>int_br := (int_br a1)\<lparr>budget := b\<rparr>\<rparr>"
  have wfT: "wf_routers [(dvr_id, new_dvr)]" using wf by (simp add: wf_routers_def dict_values_def)
  have "routers_eq (registered_routers ?b) [(dvr_id, new_dvr)]" "wf_routers (registered_routers ?b)"
    using regs wfT by simp_all
  from sync_idempotent[OF this wfT second] fr mac
  show ?thesis using regs by (simp add: same_frame_def)
qed

lemma wf_ex_T: "wf_routers ex_T"
  by (simp add: wf_routers_def wf_dvr_def dict_values_def ex_defs)

lemma ex_sync_again:
  "sync_dvr_ports Fails (Returns ex_T) 1000 1001 [] ex_synced =
     (Done, [], ex_synced\<lparr>plugin_rpc := [GetOpenflowEwDvrs], last_sync := 1001\<rparr>)"
  by (simp add: ex_synced_def ex_defs sync_defs run_defs)

theorem sync_idempotent_witness:
  "routers_eq (registered_routers ex_synced) ex_T \<and> wf_routers (registered_routers ex_synced) \<and>
   wf_routers ex_T \<and>
   sync_dvr_ports Fails (Returns ex_T) 1000 1001 [] ex_synced =
     (Done, [], ex_synced\<lparr>plugin_rpc := [GetOpenflowEwDvrs], last_sync := 1001\<rparr>) \<and>
   flows (int_br (ex_synced\<lparr>plugin_rpc := [GetOpenflowEwDvrs], last_sync := 1001\<rparr>)) =
     flows (int_br ex_synced)"
proof -
  have r: "registered_routers ex_synced = ex_T" by (simp add: ex_synced_def)
  have h1: "routers_eq (registered_routers ex_synced) ex_T" by (simp add: r)
  have h2: "wf_routers (registered_routers ex_synced)" by (simp add: r wf_ex_T)
  have t: "truthy (dvr_mac_address ex_synced)" by (simp add: ex_synced_def ex_agent_def truthy_def)
  from sync_idempotent [OF h1 h2 wf_ex_T ex_sync_again] t h1 h2 wf_ex_T ex_sync_again
  show ?thesis by simp
qed

text \<open>
  C1 as stated fails: with \<open>registered_routers\<close> equal to \<open>T\<close> and the own MAC unset,
  a call whose retry obtains the MAC issues the own-MAC rule.
\<close>

theorem sync_idempotent_counterexample:
  "registered_routers (ex_unset\<lparr>registered_routers := ex_T\<rparr>) = ex_T \<and>
   flows (int_br (ex_unset\<lparr>registered_routers := ex_T\<rparr>)) = [] \<and>
   flows (int_br (snd (snd (sync_dvr_ports (Returns ''fa:99'') (Returns ex_T) 1000 1001 []
                              (ex_unset\<lparr>registered_routers := ex_T\<rparr>))))) =
     [AddFlow (kw\<lparr>table := Some 2, priority := Some 1,
                  actions := Some ''mod_dl_src:fa:99,1''\<rparr>)]"
  by (simp add: ex_defs sync_defs run_defs)

lemma ex_first_fails:
  "sync_dvr_ports Fails (Returns [(''R1'', ex_R1)]) 1000 1001 [] ex_failing =
     (Raised FlowError, [],
      ex_failing\<lparr>plugin_rpc := [GetOpenflowEwDvrs], registered_routers := [(''R1'', ex_R1)]\<rparr>)"
  by (simp add: ex_defs sync_defs run_defs)

lemma ex_second_quiet:
  "sync_dvr_ports Fails (Returns [(''R1'', ex_R1)]) 1010 1011 []
     ((ex_failing\<lparr>plugin_rpc := [GetOpenflowEwDvrs], registered_routers := [(''R1'', ex_R1)]\<rparr>)
        \<lparr>int_br := (int_br (ex_failing\<lparr>plugin_rpc := [GetOpenflowEwDvrs],
                                         registered_routers := [(''R1'', ex_R1)]\<rparr>))
                    \<lparr>budget := None\<rparr>\<rparr>) =
     (Done, [],
      ex_agent\<lparr>plugin_rpc := [GetOpenflowEwDvrs, GetOpenflowEwDvrs], last_sync := 1011,
               registered_routers := [(''R1'', ex_R1)]\<rparr>)"
  by (simp add: ex_defs sync_defs run_defs)

theorem failed_tick_not_reapplied_witness:
  "truthy (dvr_mac_address ex_failing) \<and> registered_routers ex_failing = [] \<and>
   wf_dvr ex_R1 \<and> all_ready ex_failing ex_R1 \<and>
   sync_dvr_ports Fails (Returns [(''R1'', ex_R1)]) 1000 1001 [] ex_failing =
     (Raised FlowError, [],
      ex_failing\<lparr>plugin_rpc := [GetOpenflowEwDvrs], registered_routers := [(''R1'', ex_R1)]\<rparr>) \<and>
   flows (int_br (ex_agent\<lparr>plugin_rpc := [GetOpenflowEwDvrs, GetOpenflowEwDvrs],
                           last_sync := 1011, registered_routers := [(''R1'', ex_R1)]\<rparr>)) =
     flows (int_br (ex_failing\<lparr>plugin_rpc := [GetOpenflowEwDvrs],
                              registered_routers := [(''R1'', ex_R1)]\<rparr>))"
proof -
  have h1: "truthy (dvr_mac_address ex_failing)" by (simp add: ex_defs truthy_def)
  have h2: "registered_routers ex_failing = []" by (simp add: ex_defs)
  have h3: "wf_dvr ex_R1" by (simp add: wf_dvr_def dict_values_def ex_defs)
  have h4: "all_ready ex_failing ex_R1"
    by (simp add: all_ready_def dict_values_def get_port_ofport_def INVALID_OFPORT_def ex_defs)
  from failed_tick_not_reapplied [OF h1 h2 h3 h4 ex_first_fails ex_second_quiet]
    h1 h2 h3 h4 ex_first_fails
  show ?thesis by simp
qed

text \<open>
  C2 as stated fails: on the example topology a reconcile issues four operations; when the
  bridge raises at the second one, the next tick with the same topology and a bridge
  that accepts everything issues none of the three missing operations.
\<close>

theorem failed_tick_not_reapplied_counterexample:
  "fst (sync_dvr_ports Fails (Returns ex_T) 1000 1001 [] ex_failing1) = Raised FlowError \<and>
   flows (int_br (snd (snd (sync_dvr_ports Fails (Returns ex_T) 1000 1001 [] ex_failing1)))) =
     [AddFlow (kw\<lparr>priority := Some 2, dl_dst := Some ''aa:1'', proto := Some ''ip'',
                  ip_dst := Some ''10.0.2.0/24'', actions := Some ''resubmit(,1)''\<rparr>)] \<and>
   flows (int_br (snd (snd (sync_dvr_ports Fails (Returns ex_T) 1010 1011 []
      ((snd (snd (sync_dvr_ports Fails (Returns ex_T) 1000 1001 [] ex_failing1)))
         \<lparr>int_br := ex_br\<lparr>flows :=
            [AddFlow (kw\<lparr>priority := Some 2, dl_dst := Some ''aa:1'', proto := Some ''ip'',
                  ip_dst := Some ''10.0.2.0/24'', actions := Some ''resubmit(,1)''\<rparr>)]\<rparr>\<rparr>))))) =
     [AddFlow (kw\<lparr>priority := Some 2, dl_dst := Some ''aa:1'', proto := Some ''ip'',
                  ip_dst := Some ''10.0.2.0/24'', actions := Some ''resubmit(,1)''\<rparr>)] \<and>
   length (flows (int_br (snd (snd (sync_dvr_ports Fails (Returns ex_T) 1000 1001 [] ex_agent))))) = 4"
  by (simp add: ex_failing1_def ex_defs sync_defs run_defs)

subsection \<open>Known ports of an updated subnet\<close>

lemma for_each_add_ok:
  "budget (int_br a) = None \<Longrightarrow>
   for_each (\<lambda>x. int_add_flow (k x)) xs a = (Done, issued (map (\<lambda>x. AddFlow (k x)) xs) a)"
proof (induction xs arbitrary: a)
  case Nil
  then show ?case by simp
next
  case (Cons x xs)
  have b: "budget (int_br (issued [AddFlow (k x)] a)) = None" using Cons.prems by simp
  show ?case
    using Cons.IH[OF b]
    by (subst for_each.simps, subst seq_def) (simp add: int_add_flow_ok[OF Cons.prems])
qed

lemma for_each_del_ok:
  "budget (int_br a) = None \<Longrightarrow>
   for_each (\<lambda>x. int_delete_flows (k x)) xs a = (Done, issued (map (\<lambda>x. DeleteFlows (k x)) xs) a)"
proof (induction xs arbitrary: a)
  case Nil
  then show ?case by simp
next
  case (Cons x xs)
  have b: "budget (int_br (issued [DeleteFlows (k x)] a)) = None" using Cons.prems by simp
  show ?case
    using Cons.IH[OF b]
    by (subst for_each.simps, subst seq_def) (simp add: int_delete_flows_ok[OF Cons.prems])
qed

lemma del_flows_to_port_ok:
  "budget (int_br a) = None \<Longrightarrow>
   del_flows_to_port gs p a = (Done, issued (map (resolve_del p) gs) a)"
  unfolding del_flows_to_port_def
  by (subst for_each_del_ok) (simp_all add: resolve_del_def consts_simps)

lemma add_flows_to_port_ok:
  "budget (int_br a) = None \<Longrightarrow> truthy (dvr_mac_address a) \<Longrightarrow>
   add_flows_to_port gs p (seg_id sn) a = (Done, issued (map (resolve_add sn p) gs) a)"
  unfolding add_flows_to_port_def Let_def
  by (simp, subst for_each_add_ok) (simp_all add: resolve_add_def consts_simps)

lemma hosted_move_ops:
  assumes "budget (int_br a) = None"
  shows "\<exists>hosted a'.
           (if port_moved_out_of_host a old_port port then del_flows_to_hosted_port old_port a
            else if port_moved_into_host a old_port port
            then add_flows_to_hosted_port rf port gw a else (Done, a)) = (Done, a') \<and>
           flows (int_br a') = flows (int_br a) @ hosted \<and>
           list_all (\<lambda>op. op_table op = Some 2) hosted"
proof -
  have d: "\<exists>hosted a'. del_flows_to_hosted_port old_port a = (Done, a') \<and>
           flows (int_br a') = flows (int_br a) @ hosted \<and>
           list_all (\<lambda>op. op_table op = Some 2) hosted"
  proof (cases "port_host old_port \<noteq> host a")
    case True
    then have "del_flows_to_hosted_port old_port a = (Done, a)"
      by (simp add: del_flows_to_hosted_port_def)
    then show ?thesis by (intro exI[of _ "[]"] exI[of _ a]) simp
  next
    case False
    let ?op = "DeleteFlows (kw\<lparr>table := Some OF_EW_DVR_SRC, dl_dst := Some (port_mac old_port),
                 proto := Some ''ip'', ip_dst := Some (port_ip old_port)\<rparr>)"
    from False have "del_flows_to_hosted_port old_port a = (Done, issued [?op] a)"
      by (simp add: del_flows_to_hosted_port_def int_delete_flows_ok[OF assms])
    moreover have "flows (int_br (issued [?op] a)) = flows (int_br a) @ [?op]" by simp
    moreover have "list_all (\<lambda>op. op_table op = Some 2) [?op]"
      by (simp add: op_table_def consts_simps)
    ultimately show ?thesis by blast
  qed
  have ad: "\<exists>hosted a'. add_flows_to_hosted_port rf port gw a = (Done, a') \<and>
           flows (int_br a') = flows (int_br a) @ hosted \<and>
           list_all (\<lambda>op. op_table op = Some 2) hosted"
  proof -
    obtain r a' where run: "add_flows_to_hosted_port rf port gw a = (r, a')"
      by (cases "add_flows_to_hosted_port rf port gw a")
    from add_flows_to_hosted_port_cases[OF run] show ?thesis
    proof (elim disjE exE conjE)
      assume "a' = a"
      moreover have "r = Done" using run assms
        by (auto simp: add_flows_to_hosted_port_def Let_def int_add_flow_ok split: if_splits)
      ultimately show ?thesis using run by (intro exI[of _ "[]"] exI[of _ a]) simp
    next
      assume "r = Done" "a' = clear_port_host rf a"
      then show ?thesis using run by (intro exI[of _ "[]"] exI[of _ a']) simp
    next
      fix k assume k: "table k = Some 2" and "int_add_flow k a = (r, a')"
      then have "r = Done" "a' = issued [AddFlow k] a" using int_add_flow_ok[OF assms, of k] by simp_all
      then show ?thesis using run k
        by (intro exI[of _ "[AddFlow k]"] exI[of _ a']) (simp add: op_table_def)
    qed
  qed
  show ?thesis using d ad by (auto intro: exI[of _ "[]"])
qed

lemma add_flows_to_port_unset:
  "\<not> truthy (dvr_mac_address a) \<Longrightarrow> add_flows_to_port gs p seg a = (Done, a)"
  by (simp add: add_flows_to_port_def)

text \<open>C8 (as amended). On a bridge that accepts the operations, for a port present in both
  the old and the new version of a subnet whose own gateway MAC is the same in both versions
  (and, as in every call from \<open>_dvr_updated\<close>, a member of both routers' gateway MAC sets),
  \<open>_subnet_updated\<close> deletes the Table-1 resolve flows of exactly the gateway MACs that left
  the port's other gateway MACs (the router's gateway MACs minus the subnet's own), each once.
  With the own MAC set it then adds those of exactly the gateway MACs that entered that set,
  each once, none of them keyed on the own gateway MAC; with the own MAC unset it adds none.
  Whatever else is issued for the port addresses Table 2.\<close>

theorem known_port_resolve_flows:
  assumes known: "map_of old_ports port_id = Some old_port"
      and ok: "budget (int_br a) = None"
      and own: "gateway_mac old_subnet = gateway_mac subnet"
      and in_old: "gateway_mac old_subnet \<in> set old_gws"
      and in_new: "gateway_mac subnet \<in> set gws"
      and d: "distinct old_gws" "distinct gws"
  shows "\<exists>dels adds hosted a'.
           subnet_updated_port dvr_id sid subnet old_gws gws (port_id, port) (old_ports, a) =
             (Done, (AList.delete port_id old_ports, a')) \<and>
           flows (int_br a') =
             flows (int_br a) @ map (resolve_del port) dels @
             (if truthy (dvr_mac_address a) then map (resolve_add subnet port) adds else []) @
             hosted \<and>
           distinct dels \<and>
           set dels = (set old_gws - {gateway_mac old_subnet}) - (set gws - {gateway_mac subnet}) \<and>
           distinct adds \<and>
           set adds = (set gws - {gateway_mac subnet}) - (set old_gws - {gateway_mac old_subnet}) \<and>
           gateway_mac subnet \<notin> set adds \<and>
           list_all (\<lambda>op. op_table op = Some 2) hosted"
proof -
  let ?dels = "set_diff old_gws gws" and ?adds = "set_diff gws old_gws"
  let ?issued = "if truthy (dvr_mac_address a) then map (resolve_add subnet port) ?adds else []"
  let ?a1 = "issued (map (resolve_del port) ?dels) a"
  let ?a2 = "issued (map (resolve_del port) ?dels @ ?issued) a"
  have 1: "del_flows_to_port ?dels port a = (Done, ?a1)" by (rule del_flows_to_port_ok[OF ok])
  have 2: "add_flows_to_port ?adds port (seg_id subnet) ?a1 = (Done, ?a2)"
  proof (cases "truthy (dvr_mac_address a)")
    case True
    then show ?thesis by (subst add_flows_to_port_ok) (simp_all add: ok)
  next
    case False
    then show ?thesis by (simp add: add_flows_to_port_unset)
  qed
  have b2: "budget (int_br ?a2) = None" using ok by simp
  from hosted_move_ops[OF b2, of old_port port "(dvr_id, sid, port_id)" "gateway_mac subnet"]
  obtain hosted a' where
    3: "(if port_moved_out_of_host ?a2 old_port port then del_flows_to_hosted_port old_port ?a2
            else if port_moved_into_host ?a2 old_port port
            then add_flows_to_hosted_port (dvr_id, sid, port_id) port (gateway_mac subnet) ?a2
            else (Done, ?a2)) = (Done, a')"
    and f: "flows (int_br a') = flows (int_br ?a2) @ hosted"
    and h: "list_all (\<lambda>op. op_table op = Some 2) hosted" by blast
  have run: "subnet_updated_port dvr_id sid subnet old_gws gws (port_id, port) (old_ports, a) =
             (Done, (AList.delete port_id old_ports, a'))"
    using known 1 2 3
    by (simp add: subnet_updated_port_def Let_def seq_def on_agent_def on_local_def
        split del: if_split)
  have sd: "set ?dels = (set old_gws - {gateway_mac old_subnet}) - (set gws - {gateway_mac subnet})"
    using own in_new by (auto simp: set_diff_def)
  have sa: "set ?adds = (set gws - {gateway_mac subnet}) - (set old_gws - {gateway_mac old_subnet})"
    using own in_old by (auto simp: set_diff_def)
  have na: "gateway_mac subnet \<notin> set ?adds" using own in_old by (simp add: set_diff_def)
  have dd: "distinct ?dels" "distinct ?adds" using d by (simp_all add: set_diff_def)
  have ff: "flows (int_br a') =
             flows (int_br a) @ map (resolve_del port) ?dels @ ?issued @ hosted"
    using f by simp
  show ?thesis using run ff dd sd sa na h by blast
qed

text \<open>The theorem applies to port P1 of subnet S1 when one gateway MAC leaves and another
  one appears, with the own MAC set and with the own MAC unset.\<close>

theorem known_port_resolve_flows_witness:
  "map_of [(''P1'', ex_P1)] ''P1'' = Some ex_P1 \<and> budget (int_br ex_agent) = None \<and>
   budget (int_br ex_unset) = None \<and>
   gateway_mac ex_S1 \<in> set [''aa:1'', ''aa:3''] \<and> gateway_mac ex_S1 \<in> set [''aa:1'', ''aa:2''] \<and>
   distinct [''aa:1'', ''aa:3''] \<and> distinct [''aa:1'', ''aa:2''] \<and>
   truthy (dvr_mac_address ex_agent) \<and> \<not> truthy (dvr_mac_address ex_unset) \<and>
   (\<exists>dels adds hosted a'.
      subnet_updated_port ''R1'' ''S1'' ex_S1 [''aa:1'', ''aa:3''] [''aa:1'', ''aa:2'']
          (''P1'', ex_P1) ([(''P1'', ex_P1)], ex_agent) =
        (Done, (AList.delete ''P1'' [(''P1'', ex_P1)], a')) \<and>
      flows (int_br a') =
        flows (int_br ex_agent) @ map (resolve_del ex_P1) dels @
        map (resolve_add ex_S1 ex_P1) adds @ hosted \<and>
      set dels = {''aa:3''} \<and> set adds = {''aa:2''}) \<and>
   (\<exists>dels hosted a'.
      subnet_updated_port ''R1'' ''S1'' ex_S1 [''aa:1'', ''aa:3''] [''aa:1'', ''aa:2'']
          (''P1'', ex_P1) ([(''P1'', ex_P1)], ex_unset) =
        (Done, (AList.delete ''P1'' [(''P1'', ex_P1)], a')) \<and>
      flows (int_br a') = flows (int_br ex_unset) @ map (resolve_del ex_P1) dels @ hosted \<and>
      set dels = {''aa:3''})"
proof -
  have h1: "map_of [(''P1'', ex_P1)] ''P1'' = Some ex_P1" by simp
  have h2: "budget (int_br ex_agent) = None" by (simp add: ex_agent_def ex_br_def)
  have h2u: "budget (int_br ex_unset) = None" by (simp add: ex_unset_def ex_agent_def ex_br_def)
  have h3: "gateway_mac ex_S1 = gateway_mac ex_S1" by simp
  have h4: "gateway_mac ex_S1 \<in> set [''aa:1'', ''aa:3'']" by (simp add: ex_S1_def)
  have h5: "gateway_mac ex_S1 \<in> set [''aa:1'', ''aa:2'']" by (simp add: ex_S1_def)
  have h6: "distinct [''aa:1'', ''aa:3'']" "distinct [''aa:1'', ''aa:2'']" by simp_all
  have m: "truthy (dvr_mac_address ex_agent)" by (simp add: ex_agent_def truthy_def)
  have u: "\<not> truthy (dvr_mac_address ex_unset)"
    by (simp add: ex_unset_def ex_agent_def truthy_def)
  have sd: "(set [''aa:1'', ''aa:3''] - {gateway_mac ex_S1}) -
            (set [''aa:1'', ''aa:2''] - {gateway_mac ex_S1}) = {''aa:3''}"
    by (auto simp: ex_S1_def)
  have sa: "(set [''aa:1'', ''aa:2''] - {gateway_mac ex_S1}) -
            (set [''aa:1'', ''aa:3''] - {gateway_mac ex_S1}) = {''aa:2''}"
    by (auto simp: ex_S1_def)
  from known_port_resolve_flows [OF h1 h2 h3 h4 h5 h6, of "''R1''" "''S1''" ex_P1]
  have c1: "\<exists>dels adds hosted a'.
      subnet_updated_port ''R1'' ''S1'' ex_S1 [''aa:1'', ''aa:3''] [''aa:1'', ''aa:2'']
          (''P1'', ex_P1) ([(''P1'', ex_P1)], ex_agent) =
        (Done, (AList.delete ''P1'' [(''P1'', ex_P1)], a')) \<and>
      flows (int_br a') =
        flows (int_br ex_agent) @ map (resolve_del ex_P1) dels @
        map (resolve_add ex_S1 ex_P1) adds @ hosted \<and>
      set dels = {''aa:3''} \<and> set adds = {''aa:2''}"
    unfolding sd sa using m by auto
  from known_port_resolve_flows [OF h1 h2u h3 h4 h5 h6, of "''R1''" "''S1''" ex_P1]
  have c2: "\<exists>dels hosted a'.
      subnet_updated_port ''R1'' ''S1'' ex_S1 [''aa:1'', ''aa:3''] [''aa:1'', ''aa:2'']
          (''P1'', ex_P1) ([(''P1'', ex_P1)], ex_unset) =
        (Done, (AList.delete ''P1'' [(''P1'', ex_P1)], a')) \<and>
      flows (int_br a') = flows (int_br ex_unset) @ map (resolve_del ex_P1) dels @ hosted \<and>
      set dels = {''aa:3''}"
    unfolding sd sa using u by auto
  from h1 h2 h2u h4 h5 h6 m u c1 c2 show ?thesis by blast
qed

text \<open>C8 as stated fails. With the own MAC unset, \<open>_add_flows_to_port\<close> returns at its guard:
  no Table-1 flow is added for the gateway MAC of S2, new in the other gateway MACs of P1. And
  when the gateway MAC of the port's own subnet changes, the full sets are compared: a Table-1
  flow keyed on the new own gateway MAC is added.\<close>

theorem known_port_resolve_flows_counterexample:
  "\<not> truthy (dvr_mac_address ex_unset) \<and>
   flows (int_br (snd (dvr_updated ''R1'' ex_R1
      (ex_unset\<lparr>registered_routers := [(''R1'', [(''S1'', ex_S1)])]\<rparr>)))) = [] \<and>
   truthy (dvr_mac_address ex_synced) \<and>
   flows (int_br (snd (dvr_updated ''R1''
      [(''S1'', ex_S1\<lparr>gateway_mac := ''aa:9''\<rparr>), (''S2'', ex_S2)] ex_synced))) =
     [DeleteFlows (kw\<lparr>table := Some 1, dl_dst := Some ''aa:1'', proto := Some ''ip'',
                      ip_dst := Some ''10.0.1.5''\<rparr>),
      AddFlow (kw\<lparr>table := Some 1, priority := Some 2, dl_dst := Some ''aa:9'',
                  proto := Some ''ip'', ip_dst := Some ''10.0.1.5'',
                  actions := Some ''mod_dl_dst:m1,mod_vlan_vid:101,resubmit(,2)''\<rparr>)]"
  by (simp add: ex_synced_def ex_defs run_defs)

subsection \<open>Readiness deferral\<close>

lemma step_ok_refl: "budget (int_br a) = None \<Longrightarrow> step_ok Xs a a"
  by (simp add: step_ok_def)

lemma step_ok_trans: "step_ok Xs a b \<Longrightarrow> step_ok Xs b c \<Longrightarrow> step_ok Xs a c"
  by (auto simp: step_ok_def)

lemma step_ok_mono: "step_ok Xs a b \<Longrightarrow> Xs \<subseteq> Ys \<Longrightarrow> step_ok Ys a b"
  by (auto simp: step_ok_def)

lemma step_ok_budget: "step_ok Xs a b \<Longrightarrow> budget (int_br b) = None"
  by (simp add: step_ok_def)

lemma step_ok_host: "step_ok Xs a b \<Longrightarrow> host b = host a"
  by (simp add: step_ok_def)

lemma step_ok_ofport:
  "step_ok Xs a b \<Longrightarrow> get_port_ofport (int_br b) nm = get_port_ofport (int_br a) nm"
  by (simp add: step_ok_def get_port_ofport_def)

lemma step_ok_reg:
  "step_ok Xs a b \<Longrightarrow> k \<notin> Xs \<Longrightarrow> map_of (registered_routers b) k = map_of (registered_routers a) k"
  by (simp add: step_ok_def)

lemma step_ok_issued: "budget (int_br a) = None \<Longrightarrow> step_ok Xs a (issued ops a)"
  by (simp add: step_ok_def)

lemma new_ops_issued [simp]: "new_ops a (issued ops a) = ops"
  by (simp add: new_ops_def)

lemma new_ops_first:
  "step_ok Xs a b \<Longrightarrow> step_ok Xs b c \<Longrightarrow> op \<in> set (new_ops a b) \<Longrightarrow> op \<in> set (new_ops a c)"
  by (auto simp: step_ok_def new_ops_def)

lemma new_ops_second:
  "step_ok Xs a b \<Longrightarrow> step_ok Xs b c \<Longrightarrow> op \<in> set (new_ops b c) \<Longrightarrow> op \<in> set (new_ops a c)"
  by (auto simp: step_ok_def new_ops_def)

lemma runsI:
  "(\<And>a. budget (int_br a) = None \<Longrightarrow> \<exists>a'. f a = (Done, a') \<and> step_ok Xs a a') \<Longrightarrow> runs Xs f"
  by (simp add: runs_def)

lemma runsD:
  "runs Xs f \<Longrightarrow> budget (int_br a) = None \<Longrightarrow> \<exists>a'. f a = (Done, a') \<and> step_ok Xs a a'"
  by (simp add: runs_def)

lemma runs_mono: "runs Xs f \<Longrightarrow> Xs \<subseteq> Ys \<Longrightarrow> runs Ys f"
  unfolding runs_def by (meson step_ok_mono)

lemma runs_seq:
  assumes "runs Xs f" and "runs Xs g"
  shows "runs Xs (seq f g)"
proof (rule runsI)
  fix a :: agent assume b: "budget (int_br a) = None"
  from runsD[OF assms(1) b] obtain a1 where 1: "f a = (Done, a1)" "step_ok Xs a a1" by blast
  from runsD[OF assms(2) step_ok_budget[OF 1(2)]]
  obtain a2 where 2: "g a1 = (Done, a2)" "step_ok Xs a1 a2" by blast
  have "seq f g a = (Done, a2)" using 1(1) 2(1) by (simp add: seq_def)
  with step_ok_trans[OF 1(2) 2(2)] show "\<exists>a'. seq f g a = (Done, a') \<and> step_ok Xs a a'" by blast
qed

lemma runs_if:
  "runs Xs f \<Longrightarrow> runs Xs g \<Longrightarrow> runs Xs (\<lambda>a. if c a then f a else g a)"
  by (simp add: runs_def)

lemma runs_done: "runs Xs (\<lambda>a. (Done, a))"
  by (simp add: runs_def step_ok_refl)

lemma runs_for_each:
  assumes "\<And>x. x \<in> set xs \<Longrightarrow> runs Xs (f x)"
  shows "runs Xs (for_each f xs)"
  using assms
proof (induction xs)
  case Nil
  show ?case by (rule runsI) (simp add: step_ok_refl)
next
  case (Cons x xs)
  have eq: "for_each f (x # xs) = seq (f x) (for_each f xs)" by (rule ext) simp
  show ?case unfolding eq by (rule runs_seq) (simp_all add: Cons)
qed

lemma runs_int_add_flow: "runs Xs (int_add_flow k)"
  by (rule runsI) (simp add: int_add_flow_ok step_ok_issued)

lemma runs_int_delete_flows: "runs Xs (int_delete_flows k)"
  by (rule runsI) (simp add: int_delete_flows_ok step_ok_issued)

lemma runs_add_flows_to_other_subnets: "runs Xs (add_flows_to_other_subnets g cs)"
  unfolding add_flows_to_other_subnets_def[abs_def]
  by (rule runs_if, rule runs_done, rule runs_for_each, rule runs_int_add_flow)

lemma runs_add_flows_to_port: "runs Xs (add_flows_to_port gs p seg)"
  unfolding add_flows_to_port_def[abs_def] Let_def
  by (rule runs_if, rule runs_done, rule runs_for_each, rule runs_int_add_flow)

lemma runs_del_flows_to_other_subnets: "runs Xs (del_flows_to_other_subnets g cs)"
  unfolding del_flows_to_other_subnets_def by (rule runs_for_each, rule runs_int_delete_flows)

lemma runs_del_flows_to_port: "runs Xs (del_flows_to_port gs p)"
  unfolding del_flows_to_port_def by (rule runs_for_each, rule runs_int_delete_flows)

lemma runs_del_flows_to_hosted_port: "runs Xs (del_flows_to_hosted_port p)"
  unfolding del_flows_to_hosted_port_def[abs_def]
  by (rule runs_if, rule runs_done, rule runs_int_delete_flows)

lemma step_ok_clear:
  "budget (int_br a) = None \<Longrightarrow> X \<in> Xs \<Longrightarrow> step_ok Xs a (clear_port_host (X, s, p) a)"
  by (auto simp: step_ok_def clear_port_host_def map_of_map_entry)

lemma runs_add_flows_to_hosted_port:
  assumes "X \<in> Xs"
  shows "runs Xs (add_flows_to_hosted_port (X, s, p) port gw)"
proof (rule runsI)
  fix a :: agent assume b: "budget (int_br a) = None"
  show "\<exists>a'. add_flows_to_hosted_port (X, s, p) port gw a = (Done, a') \<and> step_ok Xs a a'"
    using b assms
    by (simp add: add_flows_to_hosted_port_def Let_def int_add_flow_ok step_ok_issued
        step_ok_clear step_ok_refl)
qed

lemma runs_subnet_added:
  assumes "X \<in> Xs"
  shows "runs Xs (subnet_added X s sn cs gs)"
  unfolding subnet_added_def Let_def
  by (intro runs_seq runs_add_flows_to_other_subnets runs_for_each)
     (auto intro!: runs_seq runs_add_flows_to_port runs_add_flows_to_hosted_port assms)

lemma runs_subnet_deleted: "runs Xs (subnet_deleted sn cs gs)"
  unfolding subnet_deleted_def Let_def
  by (intro runs_seq runs_del_flows_to_other_subnets runs_for_each runs_del_flows_to_port
      runs_del_flows_to_hosted_port)


lemma popsI:
  "(\<And>c a. budget (int_br a) = None \<Longrightarrow>
      \<exists>c' a'. f (c, a) = (Done, (c', a')) \<and> step_ok Xs a a' \<and>
              (\<forall>j. j \<noteq> k \<longrightarrow> map_of c' j = map_of c j)) \<Longrightarrow> pops Xs k f"
  by (simp add: pops_def)

lemma popsD:
  "pops Xs k f \<Longrightarrow> budget (int_br a) = None \<Longrightarrow>
   \<exists>c' a'. f (c, a) = (Done, (c', a')) \<and> step_ok Xs a a' \<and>
           (\<forall>j. j \<noteq> k \<longrightarrow> map_of c' j = map_of c j)"
  by (simp add: pops_def)

lemma runs_localI:
  "(\<And>c a. budget (int_br a) = None \<Longrightarrow>
      \<exists>c' a'. f (c, a) = (Done, (c', a')) \<and> step_ok Xs a a') \<Longrightarrow> runs_local Xs f"
  by (simp add: runs_local_def)

lemma runs_localD:
  "runs_local Xs f \<Longrightarrow> budget (int_br a) = None \<Longrightarrow>
   \<exists>c' a'. f (c, a) = (Done, (c', a')) \<and> step_ok Xs a a'"
  by (simp add: runs_local_def)

lemma pops_runs_local: "pops Xs k f \<Longrightarrow> runs_local Xs f"
  unfolding pops_def runs_local_def by blast

lemma pops_on_agent:
  assumes "runs Xs f"
  shows "pops Xs k (on_agent f)"
proof (rule popsI)
  fix c :: "('a \<times> 'b) list" and a :: agent assume b: "budget (int_br a) = None"
  from runsD[OF assms b] obtain a' where "f a = (Done, a')" "step_ok Xs a a'" by blast
  then show "\<exists>c' a'. on_agent f (c, a) = (Done, (c', a')) \<and> step_ok Xs a a' \<and>
              (\<forall>j. j \<noteq> k \<longrightarrow> map_of c' j = map_of c j)"
    by (simp add: on_agent_def)
qed

lemma pops_on_local_delete: "pops Xs k (on_local (AList.delete k))"
  by (rule popsI) (simp add: on_local_def step_ok_refl delete_conv)

lemma pops_seq:
  assumes "pops Xs k f" and "pops Xs k g"
  shows "pops Xs k (seq f g)"
proof (rule popsI)
  fix c :: "('a \<times> 'b) list" and a :: agent assume b: "budget (int_br a) = None"
  from popsD[OF assms(1) b, of c] obtain c1 a1 where
    1: "f (c, a) = (Done, (c1, a1))" "step_ok Xs a a1" "\<forall>j. j \<noteq> k \<longrightarrow> map_of c1 j = map_of c j"
    by blast
  from popsD[OF assms(2) step_ok_budget[OF 1(2)], of c1] obtain c2 a2 where
    2: "g (c1, a1) = (Done, (c2, a2))" "step_ok Xs a1 a2"
       "\<forall>j. j \<noteq> k \<longrightarrow> map_of c2 j = map_of c1 j"
    by blast
  have "seq f g (c, a) = (Done, (c2, a2))" using 1(1) 2(1) by (simp add: seq_def)
  moreover have "\<forall>j. j \<noteq> k \<longrightarrow> map_of c2 j = map_of c j" using 1(3) 2(3) by simp
  ultimately show "\<exists>c' a'. seq f g (c, a) = (Done, (c', a')) \<and> step_ok Xs a a' \<and>
              (\<forall>j. j \<noteq> k \<longrightarrow> map_of c' j = map_of c j)"
    using step_ok_trans[OF 1(2) 2(2)] by blast
qed

lemma runs_local_seq:
  assumes "runs_local Xs f" and "runs_local Xs g"
  shows "runs_local Xs (seq f g)"
proof (rule runs_localI)
  fix c :: 'a and a :: agent assume b: "budget (int_br a) = None"
  from runs_localD[OF assms(1) b, of c] obtain c1 a1 where
    1: "f (c, a) = (Done, (c1, a1))" "step_ok Xs a a1" by blast
  from runs_localD[OF assms(2) step_ok_budget[OF 1(2)], of c1] obtain c2 a2 where
    2: "g (c1, a1) = (Done, (c2, a2))" "step_ok Xs a1 a2" by blast
  have "seq f g (c, a) = (Done, (c2, a2))" using 1(1) 2(1) by (simp add: seq_def)
  then show "\<exists>c' a'. seq f g (c, a) = (Done, (c', a')) \<and> step_ok Xs a a'"
    using step_ok_trans[OF 1(2) 2(2)] by blast
qed

lemma runs_local_for_each:
  assumes "\<And>x. x \<in> set xs \<Longrightarrow> runs_local Xs (f x)"
  shows "runs_local Xs (for_each f xs)"
  using assms
proof (induction xs)
  case Nil
  show ?case by (rule runs_localI) (simp add: step_ok_refl)
next
  case (Cons x xs)
  have eq: "for_each f (x # xs) = seq (f x) (for_each f xs)" by (rule ext) simp
  show ?case unfolding eq by (rule runs_local_seq) (simp_all add: Cons)
qed

lemma runs_with_local:
  assumes "runs_local Xs body" and "\<And>c. runs Xs (rest c)"
  shows "runs Xs (with_local c0 body rest)"
proof (rule runsI)
  fix a :: agent assume b: "budget (int_br a) = None"
  from runs_localD[OF assms(1) b, of c0] obtain c1 a1 where
    1: "body (c0, a) = (Done, (c1, a1))" "step_ok Xs a a1" by blast
  from runsD[OF assms(2) step_ok_budget[OF 1(2)], of c1] obtain a2 where
    2: "rest c1 a1 = (Done, a2)" "step_ok Xs a1 a2" by blast
  have "with_local c0 body rest a = (Done, a2)" using 1(1) 2(1) by (simp add: with_local_def)
  then show "\<exists>a'. with_local c0 body rest a = (Done, a') \<and> step_ok Xs a a'"
    using step_ok_trans[OF 1(2) 2(2)] by blast
qed

lemma runs_hosted_move:
  assumes "X \<in> Xs"
  shows "runs Xs (\<lambda>a. if port_moved_out_of_host a q p then del_flows_to_hosted_port q a
                      else if port_moved_into_host a q p
                      then add_flows_to_hosted_port (X, s, pid) p gw a else (Done, a))"
  by (intro runs_if runs_del_flows_to_hosted_port runs_add_flows_to_hosted_port runs_done assms)

lemma pops_subnet_updated_port:
  assumes X: "X \<in> Xs"
  shows "pops Xs pid (subnet_updated_port X s sn og g (pid, p))"
proof (rule popsI)
  fix c :: "(string \<times> port) list" and a :: agent assume b: "budget (int_br a) = None"
  show "\<exists>c' a'. subnet_updated_port X s sn og g (pid, p) (c, a) = (Done, (c', a')) \<and>
          step_ok Xs a a' \<and> (\<forall>j. j \<noteq> pid \<longrightarrow> map_of c' j = map_of c j)"
  proof (cases "map_of c pid")
    case None
    have "pops Xs pid
            (on_agent (seq (add_flows_to_port (set_diff g [gateway_mac sn]) p (seg_id sn))
               (add_flows_to_hosted_port (X, s, pid) p (gateway_mac sn))))"
      by (intro pops_on_agent runs_seq runs_add_flows_to_port runs_add_flows_to_hosted_port X)
    from popsD[OF this b, of c] show ?thesis
      using None by (simp add: subnet_updated_port_def Let_def)
  next
    case (Some q)
    have "pops Xs pid
            (seq (on_agent
                    (seq (del_flows_to_port (set_diff og g) p)
                       (add_flows_to_port (set_diff g og) p (seg_id sn))))
               (seq (on_local (AList.delete pid))
                  (on_agent
                     (\<lambda>a. if port_moved_out_of_host a q p then del_flows_to_hosted_port q a
                           else if port_moved_into_host a q p
                           then add_flows_to_hosted_port (X, s, pid) p (gateway_mac sn) a
                           else (Done, a)))))"
      by (intro pops_seq pops_on_agent pops_on_local_delete runs_seq runs_del_flows_to_port
          runs_add_flows_to_port runs_hosted_move X)
    from popsD[OF this b, of c] show ?thesis
      using Some by (simp add: subnet_updated_port_def Let_def)
  qed
qed


lemma reach_first:
  assumes "step_ok Xs a b" and "op \<in> set (new_ops a b)" and "step_ok Xs b c"
  shows "step_ok Xs a c \<and> op \<in> set (new_ops a c)"
  using assms step_ok_trans new_ops_first by blast

lemma reach_second:
  assumes "step_ok Xs a b" and "step_ok Xs b c" and "op \<in> set (new_ops b c)"
  shows "step_ok Xs a c \<and> op \<in> set (new_ops a c)"
  using assms step_ok_trans new_ops_second by blast

lemma target_port_step:
  assumes X: "X \<in> Xs"
      and old: "map_of c P = Some q" and cleared: "port_host q = None"
      and bound: "port_host p = host a" and named: "host a \<noteq> None"
      and ready: "get_port_ofport (int_br a) (port_name p) \<noteq> INVALID_OFPORT"
      and b: "budget (int_br a) = None"
  shows "\<exists>c' a'. subnet_updated_port X S sn og g (P, p) (c, a) = (Done, (c', a')) \<and>
           step_ok Xs a a' \<and>
           hosted_add p (gateway_mac sn) (get_port_ofport (int_br a) (port_name p))
             \<in> set (new_ops a a')"
proof -
  let ?op = "hosted_add p (gateway_mac sn) (get_port_ofport (int_br a) (port_name p))"
  from runsD[OF runs_del_flows_to_port b] obtain a1 where
    1: "del_flows_to_port (set_diff og g) p a = (Done, a1)" and s1: "step_ok Xs a a1" by blast
  from runsD[OF runs_add_flows_to_port step_ok_budget[OF s1]] obtain a2 where
    2: "add_flows_to_port (set_diff g og) p (seg_id sn) a1 = (Done, a2)"
    and s2: "step_ok Xs a1 a2" by blast
  have s12: "step_ok Xs a a2" by (rule step_ok_trans[OF s1 s2])
  have h2: "host a2 = host a" by (rule step_ok_host[OF s12])
  have b2: "budget (int_br a2) = None" by (rule step_ok_budget[OF s12])
  have o2: "get_port_ofport (int_br a2) (port_name p) = get_port_ofport (int_br a) (port_name p)"
    by (rule step_ok_ofport[OF s12])
  have out: "\<not> port_moved_out_of_host a2 q p"
    using cleared named h2 by (auto simp: port_moved_out_of_host_def)
  have into: "port_moved_into_host a2 q p"
    using cleared named bound h2 by (auto simp: port_moved_into_host_def)
  have 3: "add_flows_to_hosted_port (X, S, P) p (gateway_mac sn) a2 = (Done, issued [?op] a2)"
    using bound h2 ready o2
    by (simp add: add_flows_to_hosted_port_def Let_def int_add_flow_ok[OF b2] hosted_add_def
        consts_simps)
  have run: "subnet_updated_port X S sn og g (P, p) (c, a) =
               (Done, (AList.delete P c, issued [?op] a2))"
    using old 1 2 3 out into
    by (simp add: subnet_updated_port_def Let_def seq_def on_agent_def on_local_def)
  have s3: "step_ok Xs a2 (issued [?op] a2)" by (rule step_ok_issued[OF b2])
  have "?op \<in> set (new_ops a2 (issued [?op] a2))" by simp
  from reach_second[OF s12 s3 this] run show ?thesis by blast
qed

lemma target_loop:
  fixes f :: "'k \<times> 'v \<Rightarrow> (('k \<times> 'w) list \<times> agent) act"
  assumes others: "\<And>k v. pops Xs k (f (k, v))"
      and target: "\<And>c a. map_of c K = Some w \<Longrightarrow> step_ok Xs a0 a \<Longrightarrow>
                     \<exists>c' a'. f (K, v0) (c, a) = (Done, (c', a')) \<and> step_ok Xs a a' \<and>
                             op \<in> set (new_ops a a')"
  shows "map_of xs K = Some v0 \<Longrightarrow> map_of c K = Some w \<Longrightarrow> step_ok Xs a0 a \<Longrightarrow>
         \<exists>c' a'. for_each f xs (c, a) = (Done, (c', a')) \<and> step_ok Xs a a' \<and>
                 op \<in> set (new_ops a a')"
proof (induction xs arbitrary: c a)
  case Nil
  then show ?case by simp
next
  case (Cons x xs)
  obtain k v where x: "x = (k, v)" by (cases x)
  have ba: "budget (int_br a) = None" by (rule step_ok_budget[OF Cons.prems(3)])
  show ?case
  proof (cases "k = K")
    case True
    with Cons.prems(1) x have v: "v = v0" by simp
    from target[OF Cons.prems(2) Cons.prems(3)] obtain c1 a1 where
      1: "f (K, v0) (c, a) = (Done, (c1, a1))" and s1: "step_ok Xs a a1"
      and o1: "op \<in> set (new_ops a a1)" by blast
    have "runs_local Xs (for_each f xs)"
      by (rule runs_local_for_each) (metis others pops_runs_local surj_pair)
    from runs_localD[OF this step_ok_budget[OF s1], of c1] obtain c2 a2 where
      2: "for_each f xs (c1, a1) = (Done, (c2, a2))" and s2: "step_ok Xs a1 a2" by blast
    have "for_each f (x # xs) (c, a) = (Done, (c2, a2))"
      using 1 2 x True v by (simp add: seq_def)
    with reach_first[OF s1 o1 s2] show ?thesis by blast
  next
    case False
    with Cons.prems(1) x have m: "map_of xs K = Some v0" by simp
    from popsD[OF others ba, of k v c] obtain c1 a1 where
      1: "f (k, v) (c, a) = (Done, (c1, a1))" and s1: "step_ok Xs a a1"
      and l1: "\<forall>j. j \<noteq> k \<longrightarrow> map_of c1 j = map_of c j" by blast
    have c1: "map_of c1 K = Some w" using l1 False Cons.prems(2) by simp
    from Cons.IH[OF m c1 step_ok_trans[OF Cons.prems(3) s1]] obtain c2 a2 where
      2: "for_each f xs (c1, a1) = (Done, (c2, a2))" and s2: "step_ok Xs a1 a2"
      and o2: "op \<in> set (new_ops a1 a2)" by blast
    have "for_each f (x # xs) (c, a) = (Done, (c2, a2))"
      using 1 2 x by (simp add: seq_def)
    with reach_second[OF s1 s2 o2] show ?thesis by blast
  qed
qed

lemma target_subnet_updated:
  assumes X: "X \<in> Xs"
      and new: "map_of (ports sn) P = Some p"
      and old: "map_of (ports osn) P = Some q" and cleared: "port_host q = None"
      and bound: "port_host p = host a" and named: "host a \<noteq> None"
      and ready: "get_port_ofport (int_br a) (port_name p) \<noteq> INVALID_OFPORT"
      and b: "budget (int_br a) = None"
  shows "\<exists>a'. subnet_updated X S (osn, sn) (oc, cs) (og, g) a = (Done, a') \<and>
           step_ok Xs a a' \<and>
           hosted_add p (gateway_mac sn) (get_port_ofport (int_br a) (port_name p))
             \<in> set (new_ops a a')"
proof -
  let ?op = "hosted_add p (gateway_mac sn) (get_port_ofport (int_br a) (port_name p))"
  let ?rest = "\<lambda>old_ports. for_each
                 (\<lambda>port. seq (del_flows_to_port (set_diff g [gateway_mac sn]) port)
                           (del_flows_to_hosted_port port))
                 (dict_values old_ports)"
  from runsD[OF runs_del_flows_to_other_subnets b] obtain a1 where
    1: "del_flows_to_other_subnets (gateway_mac sn) (set_diff oc cs) a = (Done, a1)"
    and s1: "step_ok Xs a a1" by blast
  from runsD[OF runs_add_flows_to_other_subnets step_ok_budget[OF s1]] obtain a2 where
    2: "add_flows_to_other_subnets (gateway_mac sn) (set_diff cs oc) a1 = (Done, a2)"
    and s2: "step_ok Xs a1 a2" by blast
  have s12: "step_ok Xs a a2" by (rule step_ok_trans[OF s1 s2])
  have tgt: "\<exists>c' a'. subnet_updated_port X S sn og g (P, p) (c, a3) = (Done, (c', a')) \<and>
               step_ok Xs a3 a' \<and> ?op \<in> set (new_ops a3 a')"
    if c: "map_of c P = Some q" and s: "step_ok Xs a a3" for c a3
  proof -
    have "\<exists>c' a'. subnet_updated_port X S sn og g (P, p) (c, a3) = (Done, (c', a')) \<and>
           step_ok Xs a3 a' \<and>
           hosted_add p (gateway_mac sn) (get_port_ofport (int_br a3) (port_name p))
             \<in> set (new_ops a3 a')"
      using X c cleared bound named ready step_ok_host[OF s] step_ok_ofport[OF s]
        step_ok_budget[OF s]
      by (intro target_port_step) simp_all
    then show ?thesis by (simp add: step_ok_ofport[OF s])
  qed
  from target_loop[where f = "subnet_updated_port X S sn og g" and K = P and w = q and ?a0.0 = a
      and op = ?op and ?v0.0 = p, OF pops_subnet_updated_port[OF X] tgt new old s12]
  obtain c3 a3 where
    3: "for_each (subnet_updated_port X S sn og g) (ports sn) (ports osn, a2) = (Done, (c3, a3))"
    and s3: "step_ok Xs a2 a3" and o3: "?op \<in> set (new_ops a2 a3)" by blast
  have "runs Xs (?rest c3)"
    by (intro runs_for_each runs_seq runs_del_flows_to_port runs_del_flows_to_hosted_port)
  from runsD[OF this step_ok_budget[OF s3]] obtain a4 where
    4: "?rest c3 a3 = (Done, a4)" and s4: "step_ok Xs a3 a4" by blast
  have run: "subnet_updated X S (osn, sn) (oc, cs) (og, g) a = (Done, a4)"
    using 1 2 3 4 by (simp add: subnet_updated_def Let_def seq_def with_local_def)
  from reach_second[OF s12 s3 o3] have "step_ok Xs a a3" "?op \<in> set (new_ops a a3)" by simp_all
  from reach_first[OF this s4] run show ?thesis by blast
qed

lemma runs_subnet_updated:
  assumes X: "X \<in> Xs"
  shows "runs Xs (subnet_updated X S (osn, sn) (oc, cs) (og, g))"
  unfolding subnet_updated_def Let_def prod.case
  by (intro runs_seq runs_del_flows_to_other_subnets runs_add_flows_to_other_subnets
      runs_with_local runs_local_for_each runs_for_each runs_del_flows_to_port
      runs_del_flows_to_hosted_port)
     (metis pops_runs_local pops_subnet_updated_port[OF X] surj_pair)


lemma pops_dvr_updated_subnet:
  assumes X: "X \<in> Xs"
  shows "pops Xs sid
           (\<lambda>(old_dvr, a).
               case map_of old_dvr sid of
                 None \<Rightarrow> on_agent (subnet_added X sid sn cs g) (old_dvr, a)
               | Some old_subnet \<Rightarrow>
                   seq (on_local (AList.delete sid))
                     (on_agent (subnet_updated X sid (old_subnet, sn) (oc, cs) (og, g)))
                     (old_dvr, a))"
proof (rule popsI)
  fix c :: "(string \<times> subnet) list" and a :: agent assume b: "budget (int_br a) = None"
  show "\<exists>c' a'.
          (case (c, a) of
             (old_dvr, a) \<Rightarrow>
               case map_of old_dvr sid of
                 None \<Rightarrow> on_agent (subnet_added X sid sn cs g) (old_dvr, a)
               | Some old_subnet \<Rightarrow>
                   seq (on_local (AList.delete sid))
                     (on_agent (subnet_updated X sid (old_subnet, sn) (oc, cs) (og, g)))
                     (old_dvr, a)) = (Done, (c', a')) \<and>
          step_ok Xs a a' \<and> (\<forall>j. j \<noteq> sid \<longrightarrow> map_of c' j = map_of c j)"
  proof (cases "map_of c sid")
    case None
    have "pops Xs sid (on_agent (subnet_added X sid sn cs g))"
      by (intro pops_on_agent runs_subnet_added X)
    from popsD[OF this b, of c] show ?thesis using None by simp
  next
    case (Some osn)
    have "pops Xs sid
            (seq (on_local (AList.delete sid))
               (on_agent (subnet_updated X sid (osn, sn) (oc, cs) (og, g))))"
      by (intro pops_seq pops_on_local_delete pops_on_agent runs_subnet_updated X)
    from popsD[OF this b, of c] show ?thesis using Some by simp
  qed
qed

lemma step_ok_store:
  "budget (int_br a) = None \<Longrightarrow> (\<And>k. k \<noteq> X \<Longrightarrow> map_of rs k = map_of (registered_routers a) k) \<Longrightarrow>
   step_ok {X} a (a\<lparr>registered_routers := rs\<rparr>)"
  by (simp add: step_ok_def)

lemma new_ops_store [simp]: "new_ops (a\<lparr>registered_routers := rs\<rparr>) b = new_ops a b"
  by (simp add: new_ops_def)

lemma runs_dvr_added: "runs {X} (dvr_added X nd)"
proof (rule runsI)
  fix a :: agent assume b: "budget (int_br a) = None"
  let ?a = "a\<lparr>registered_routers := AList.update X nd (registered_routers a)\<rparr>"
  have s0: "step_ok {X} a ?a" by (rule step_ok_store[OF b]) (simp add: update_conv')
  have "runs {X} (for_each (\<lambda>(subnet_id, subnet).
           subnet_added X subnet_id subnet (dvr_cidrs nd) (dvr_gateway_macs nd)) nd)"
    by (rule runs_for_each) (auto intro: runs_subnet_added)
  from runsD[OF this step_ok_budget[OF s0]] obtain a' where
    1: "for_each (\<lambda>(subnet_id, subnet).
           subnet_added X subnet_id subnet (dvr_cidrs nd) (dvr_gateway_macs nd)) nd ?a = (Done, a')"
    and s1: "step_ok {X} ?a a'" by blast
  have "dvr_added X nd a = (Done, a')" using 1 by (simp add: dvr_added_def Let_def)
  with step_ok_trans[OF s0 s1] show "\<exists>a'. dvr_added X nd a = (Done, a') \<and> step_ok {X} a a'"
    by blast
qed

lemma dvr_deleted_runs:
  assumes reg: "map_of (registered_routers a) X = Some od" and b: "budget (int_br a) = None"
  shows "\<exists>a'. dvr_deleted X a = (Done, a') \<and> step_ok {X} a a'"
proof -
  let ?a = "a\<lparr>registered_routers := AList.delete X (registered_routers a)\<rparr>"
  have s0: "step_ok {X} a ?a" by (rule step_ok_store[OF b]) (simp add: delete_conv')
  have "runs {X} (for_each (\<lambda>subnet.
           subnet_deleted subnet (dvr_cidrs od) (dvr_gateway_macs od)) (dict_values od))"
    by (rule runs_for_each) (rule runs_subnet_deleted)
  from runsD[OF this step_ok_budget[OF s0]] obtain a' where
    1: "for_each (\<lambda>subnet.
           subnet_deleted subnet (dvr_cidrs od) (dvr_gateway_macs od)) (dict_values od) ?a =
        (Done, a')"
    and s1: "step_ok {X} ?a a'" by blast
  have "dvr_deleted X a = (Done, a')" using 1 reg by (simp add: dvr_deleted_def Let_def)
  with step_ok_trans[OF s0 s1] show ?thesis by blast
qed

lemma dvr_updated_runs:
  assumes reg: "map_of (registered_routers a) X = Some od" and b: "budget (int_br a) = None"
  shows "\<exists>a'. dvr_updated X nd a = (Done, a') \<and> step_ok {X} a a'"
proof -
  let ?a = "a\<lparr>registered_routers :=
               AList.update X nd (AList.delete X (registered_routers a))\<rparr>"
  define B where "B =
    (\<lambda>(subnet_id, subnet) (old_dvr, a).
        case map_of old_dvr subnet_id of
          None \<Rightarrow>
            on_agent (subnet_added X subnet_id subnet (dvr_cidrs nd) (dvr_gateway_macs nd))
              (old_dvr, a)
        | Some old_subnet \<Rightarrow>
            seq (on_local (AList.delete subnet_id))
              (on_agent
                 (subnet_updated X subnet_id (old_subnet, subnet)
                    (dvr_cidrs od, dvr_cidrs nd) (dvr_gateway_macs od, dvr_gateway_macs nd)))
              (old_dvr, a))"
  let ?rest = "\<lambda>old_dvr. for_each
                 (\<lambda>subnet. subnet_deleted subnet (dvr_cidrs od) (dvr_gateway_macs od))
                 (dict_values old_dvr)"
  have s0: "step_ok {X} a ?a"
    by (rule step_ok_store[OF b]) (simp add: update_conv' delete_conv')
  have others: "pops {X} k (B (k, v))" for k v
    unfolding B_def prod.case by (rule pops_dvr_updated_subnet) simp
  have "runs {X} (with_local od (for_each B nd) ?rest)"
    by (intro runs_with_local runs_local_for_each runs_for_each runs_subnet_deleted)
       (metis others pops_runs_local surj_pair)
  from runsD[OF this step_ok_budget[OF s0]] obtain a' where
    1: "with_local od (for_each B nd) ?rest ?a = (Done, a')" and s1: "step_ok {X} ?a a'"
    by blast
  have "dvr_updated X nd a = (Done, a')"
    using 1 reg unfolding B_def by (simp add: dvr_updated_def Let_def)
  with step_ok_trans[OF s0 s1] show ?thesis by blast
qed

lemma target_dvr_updated:
  assumes reg: "map_of (registered_routers a) X = Some od"
      and new_s: "map_of nd S = Some sn" and old_s: "map_of od S = Some osn"
      and new_p: "map_of (ports sn) P = Some p"
      and old_p: "map_of (ports osn) P = Some q" and cleared: "port_host q = None"
      and bound: "port_host p = host a" and named: "host a \<noteq> None"
      and ready: "get_port_ofport (int_br a) (port_name p) \<noteq> INVALID_OFPORT"
      and b: "budget (int_br a) = None"
  shows "\<exists>a'. dvr_updated X nd a = (Done, a') \<and> step_ok {X} a a' \<and>
           hosted_add p (gateway_mac sn) (get_port_ofport (int_br a) (port_name p))
             \<in> set (new_ops a a')"
proof -
  let ?op = "hosted_add p (gateway_mac sn) (get_port_ofport (int_br a) (port_name p))"
  let ?a = "a\<lparr>registered_routers :=
               AList.update X nd (AList.delete X (registered_routers a))\<rparr>"
  define B where "B =
    (\<lambda>(subnet_id, subnet) (old_dvr, a).
        case map_of old_dvr subnet_id of
          None \<Rightarrow>
            on_agent (subnet_added X subnet_id subnet (dvr_cidrs nd) (dvr_gateway_macs nd))
              (old_dvr, a)
        | Some old_subnet \<Rightarrow>
            seq (on_local (AList.delete subnet_id))
              (on_agent
                 (subnet_updated X subnet_id (old_subnet, subnet)
                    (dvr_cidrs od, dvr_cidrs nd) (dvr_gateway_macs od, dvr_gateway_macs nd)))
              (old_dvr, a))"
  let ?rest = "\<lambda>old_dvr. for_each
                 (\<lambda>subnet. subnet_deleted subnet (dvr_cidrs od) (dvr_gateway_macs od))
                 (dict_values old_dvr)"
  have s0: "step_ok {X} a ?a"
    by (rule step_ok_store[OF b]) (simp add: update_conv' delete_conv')
  have others: "pops {X} k (B (k, v))" for k v
    unfolding B_def prod.case by (rule pops_dvr_updated_subnet) simp
  have tgt: "\<exists>c' a'. B (S, sn) (c, a3) = (Done, (c', a')) \<and> step_ok {X} a3 a' \<and>
               ?op \<in> set (new_ops a3 a')"
    if c: "map_of c S = Some osn" and s: "step_ok {X} ?a a3" for c a3
  proof -
    have sa: "step_ok {X} a a3" by (rule step_ok_trans[OF s0 s])
    have "\<exists>a'. subnet_updated X S (osn, sn) (dvr_cidrs od, dvr_cidrs nd)
                  (dvr_gateway_macs od, dvr_gateway_macs nd) a3 = (Done, a') \<and>
             step_ok {X} a3 a' \<and>
             hosted_add p (gateway_mac sn) (get_port_ofport (int_br a3) (port_name p))
               \<in> set (new_ops a3 a')"
      using new_p old_p cleared bound named ready step_ok_host[OF sa] step_ok_ofport[OF sa]
        step_ok_budget[OF sa]
      by (intro target_subnet_updated) simp_all
    then obtain a' where
      1: "subnet_updated X S (osn, sn) (dvr_cidrs od, dvr_cidrs nd)
            (dvr_gateway_macs od, dvr_gateway_macs nd) a3 = (Done, a')"
      and 2: "step_ok {X} a3 a'" "?op \<in> set (new_ops a3 a')"
      by (auto simp: step_ok_ofport[OF sa])
    have "B (S, sn) (c, a3) = (Done, (AList.delete S c, a'))"
      using c 1 by (simp add: B_def seq_def on_local_def on_agent_def)
    with 2 show ?thesis by blast
  qed
  from target_loop[where f = B and K = S and w = osn and ?a0.0 = ?a and op = ?op
      and ?v0.0 = sn, OF others tgt new_s old_s step_ok_refl]
  obtain c1 a1 where
    1: "for_each B nd (od, ?a) = (Done, (c1, a1))" and s1: "step_ok {X} ?a a1"
    and o1: "?op \<in> set (new_ops ?a a1)" using b by auto
  have "runs {X} (?rest c1)" by (intro runs_for_each runs_subnet_deleted)
  from runsD[OF this step_ok_budget[OF s1]] obtain a2 where
    2: "?rest c1 a1 = (Done, a2)" and s2: "step_ok {X} a1 a2" by blast
  have run: "dvr_updated X nd a = (Done, a2)"
    using 1 2 reg unfolding B_def by (simp add: dvr_updated_def Let_def with_local_def)
  from reach_second[OF s0 s1] o1 have "step_ok {X} a a1" "?op \<in> set (new_ops a a1)"
    by simp_all
  from reach_first[OF this s2] run show ?thesis by blast
qed


lemma update_loop:
  "distinct ids \<Longrightarrow>
   \<forall>i \<in> set ids. map_of c i \<noteq> None \<and> map_of (registered_routers a) i \<noteq> None \<Longrightarrow>
   budget (int_br a) = None \<Longrightarrow>
   \<exists>c' a'. for_each
             (\<lambda>dvr_id (sync_dvrs, a).
                 case map_of sync_dvrs dvr_id of
                   None \<Rightarrow> (Raised KeyError, (sync_dvrs, a))
                 | Some new_dvr \<Rightarrow>
                     seq (on_local (AList.delete dvr_id))
                       (on_agent (dvr_updated dvr_id new_dvr))
                       (sync_dvrs, a))
             ids (c, a) = (Done, (c', a')) \<and>
           step_ok (set ids) a a'"
proof (induction ids arbitrary: c a)
  case Nil
  then show ?case by (simp add: step_ok_refl)
next
  case (Cons i ids)
  from Cons.prems(2) obtain nd od where
    nd: "map_of c i = Some nd" and od: "map_of (registered_routers a) i = Some od" by auto
  from dvr_updated_runs[OF od Cons.prems(3), of nd] obtain a1 where
    1: "dvr_updated i nd a = (Done, a1)" and s1: "step_ok {i} a a1" by blast
  have d: "distinct ids" and ni: "i \<notin> set ids" using Cons.prems(1) by simp_all
  have m: "\<forall>j \<in> set ids. map_of (AList.delete i c) j \<noteq> None \<and>
             map_of (registered_routers a1) j \<noteq> None"
  proof
    fix j assume j: "j \<in> set ids"
    then have ne: "j \<noteq> i" using ni by auto
    then have "map_of (registered_routers a1) j = map_of (registered_routers a) j"
      using step_ok_reg[OF s1, of j] by simp
    then show "map_of (AList.delete i c) j \<noteq> None \<and> map_of (registered_routers a1) j \<noteq> None"
      using Cons.prems(2) j ne by (simp add: delete_conv')
  qed
  from Cons.IH[OF d m step_ok_budget[OF s1]] obtain c2 a2 where
    2: "for_each
          (\<lambda>dvr_id (sync_dvrs, a).
              case map_of sync_dvrs dvr_id of
                None \<Rightarrow> (Raised KeyError, (sync_dvrs, a))
              | Some new_dvr \<Rightarrow>
                  seq (on_local (AList.delete dvr_id))
                    (on_agent (dvr_updated dvr_id new_dvr))
                    (sync_dvrs, a))
          ids (AList.delete i c, a1) = (Done, (c2, a2))"
    and s2: "step_ok (set ids) a1 a2" by blast
  have s: "step_ok (set (i # ids)) a a2"
    by (rule step_ok_trans[OF step_ok_mono[OF s1] step_ok_mono[OF s2]]) auto
  show ?case
    using 2 s
    by (subst for_each.simps, subst seq_def) (simp add: nd 1 seq_def on_local_def on_agent_def)
qed

lemma target_update_loop:
  assumes new_s: "map_of nd S = Some sn" and old_s: "map_of od S = Some osn"
      and new_p: "map_of (ports sn) P = Some p"
      and old_p: "map_of (ports osn) P = Some q" and cleared: "port_host q = None"
      and bound: "port_host p = Some h" and ready: "ofno \<noteq> INVALID_OFPORT"
  shows "distinct ids \<Longrightarrow> X \<in> set ids \<Longrightarrow>
   \<forall>i \<in> set ids. map_of c i \<noteq> None \<and> map_of (registered_routers a) i \<noteq> None \<Longrightarrow>
   map_of c X = Some nd \<Longrightarrow> map_of (registered_routers a) X = Some od \<Longrightarrow>
   host a = Some h \<Longrightarrow> get_port_ofport (int_br a) (port_name p) = ofno \<Longrightarrow>
   budget (int_br a) = None \<Longrightarrow>
   \<exists>c' a'. for_each
             (\<lambda>dvr_id (sync_dvrs, a).
                 case map_of sync_dvrs dvr_id of
                   None \<Rightarrow> (Raised KeyError, (sync_dvrs, a))
                 | Some new_dvr \<Rightarrow>
                     seq (on_local (AList.delete dvr_id))
                       (on_agent (dvr_updated dvr_id new_dvr))
                       (sync_dvrs, a))
             ids (c, a) = (Done, (c', a')) \<and>
           step_ok (set ids) a a' \<and> hosted_add p (gateway_mac sn) ofno \<in> set (new_ops a a')"
proof (induction ids arbitrary: c a)
  case Nil
  then show ?case by simp
next
  case (Cons i ids)
  let ?C = "\<lambda>dvr_id (sync_dvrs, a).
              case map_of sync_dvrs dvr_id of
                None \<Rightarrow> (Raised KeyError, (sync_dvrs, a))
              | Some new_dvr \<Rightarrow>
                  seq (on_local (AList.delete dvr_id))
                    (on_agent (dvr_updated dvr_id new_dvr))
                    (sync_dvrs, a)"
  let ?op = "hosted_add p (gateway_mac sn) ofno"
  have d: "distinct ids" and ni: "i \<notin> set ids" using Cons.prems(1) by simp_all
  have b: "budget (int_br a) = None" by (rule Cons.prems(8))
  have keep: "\<forall>j \<in> set ids. map_of (AList.delete i c) j \<noteq> None \<and>
             map_of (registered_routers a1) j \<noteq> None" if s1: "step_ok {i} a a1" for a1
  proof
    fix j assume j: "j \<in> set ids"
    then have ne: "j \<noteq> i" using ni by auto
    then have "map_of (registered_routers a1) j = map_of (registered_routers a) j"
      using step_ok_reg[OF s1, of j] by simp
    then show "map_of (AList.delete i c) j \<noteq> None \<and> map_of (registered_routers a1) j \<noteq> None"
      using Cons.prems(3) j ne by (simp add: delete_conv')
  qed
  show ?case
  proof (cases "i = X")
    case True
    have "\<exists>a'. dvr_updated X nd a = (Done, a') \<and> step_ok {X} a a' \<and>
           hosted_add p (gateway_mac sn) (get_port_ofport (int_br a) (port_name p))
             \<in> set (new_ops a a')"
      using Cons.prems(5) new_s old_s new_p old_p cleared bound ready Cons.prems(6,7) b
      by (intro target_dvr_updated) simp_all
    then obtain a1 where
      1: "dvr_updated X nd a = (Done, a1)" and s1: "step_ok {X} a a1"
      and o1: "?op \<in> set (new_ops a a1)" using Cons.prems(7) by auto
    from update_loop[OF d keep step_ok_budget[OF s1]] s1 True obtain c2 a2 where
      2: "for_each ?C ids (AList.delete i c, a1) = (Done, (c2, a2))"
      and s2: "step_ok (set ids) a1 a2" by blast
    have s1': "step_ok (set (i # ids)) a a1" by (rule step_ok_mono[OF s1]) (simp add: True)
    have s2': "step_ok (set (i # ids)) a1 a2" by (rule step_ok_mono[OF s2]) auto
    have "for_each ?C (i # ids) (c, a) = (Done, (c2, a2))"
      using 2
      by (subst for_each.simps, subst seq_def)
         (simp add: True Cons.prems(4) 1 seq_def on_local_def on_agent_def)
    with reach_first[OF s1' o1 s2'] show ?thesis by blast
  next
    case False
    from Cons.prems(3) obtain nd' od' where
      nd': "map_of c i = Some nd'" and od': "map_of (registered_routers a) i = Some od'" by auto
    from dvr_updated_runs[OF od' b, of nd'] obtain a1 where
      1: "dvr_updated i nd' a = (Done, a1)" and s1: "step_ok {i} a a1" by blast
    have x: "X \<in> set ids" using Cons.prems(2) False by simp
    have cx: "map_of (AList.delete i c) X = Some nd"
      using Cons.prems(4) False by (simp add: delete_conv')
    have rx: "map_of (registered_routers a1) X = Some od"
      using step_ok_reg[OF s1, of X] False Cons.prems(5) by simp
    have h1: "host a1 = Some h" using step_ok_host[OF s1] Cons.prems(6) by simp
    have o1: "get_port_ofport (int_br a1) (port_name p) = ofno"
      using step_ok_ofport[OF s1] Cons.prems(7) by simp
    from Cons.IH[OF d x keep[OF s1] cx rx h1 o1 step_ok_budget[OF s1]] obtain c2 a2 where
      2: "for_each ?C ids (AList.delete i c, a1) = (Done, (c2, a2))"
      and s2: "step_ok (set ids) a1 a2" and o2: "?op \<in> set (new_ops a1 a2)" by blast
    have s1': "step_ok (set (i # ids)) a a1" by (rule step_ok_mono[OF s1]) simp
    have s2': "step_ok (set (i # ids)) a1 a2" by (rule step_ok_mono[OF s2]) auto
    have "for_each ?C (i # ids) (c, a) = (Done, (c2, a2))"
      using 2
      by (subst for_each.simps, subst seq_def)
         (simp add: nd' 1 seq_def on_local_def on_agent_def)
    with reach_second[OF s1' s2' o2] show ?thesis by blast
  qed
qed

lemma delete_loop:
  "distinct ids \<Longrightarrow> \<forall>i \<in> set ids. map_of (registered_routers a) i \<noteq> None \<Longrightarrow>
   budget (int_br a) = None \<Longrightarrow>
   \<exists>a'. for_each dvr_deleted ids a = (Done, a') \<and> step_ok (set ids) a a'"
proof (induction ids arbitrary: a)
  case Nil
  then show ?case by (simp add: step_ok_refl)
next
  case (Cons i ids)
  from Cons.prems(2) obtain od where od: "map_of (registered_routers a) i = Some od" by auto
  from dvr_deleted_runs[OF od Cons.prems(3)] obtain a1 where
    1: "dvr_deleted i a = (Done, a1)" and s1: "step_ok {i} a a1" by blast
  have d: "distinct ids" and ni: "i \<notin> set ids" using Cons.prems(1) by simp_all
  have m: "\<forall>j \<in> set ids. map_of (registered_routers a1) j \<noteq> None"
  proof
    fix j assume j: "j \<in> set ids"
    then have "j \<noteq> i" using ni by auto
    then have "map_of (registered_routers a1) j = map_of (registered_routers a) j"
      using step_ok_reg[OF s1, of j] by simp
    then show "map_of (registered_routers a1) j \<noteq> None" using Cons.prems(2) j by simp
  qed
  from Cons.IH[OF d m step_ok_budget[OF s1]] obtain a2 where
    2: "for_each dvr_deleted ids a1 = (Done, a2)" and s2: "step_ok (set ids) a1 a2" by blast
  have s: "step_ok (set (i # ids)) a a2"
    by (rule step_ok_trans[OF step_ok_mono[OF s1] step_ok_mono[OF s2]]) auto
  show ?case using 2 s by (subst for_each.simps, subst seq_def) (simp add: 1)
qed


lemma target_sync_routers:
  assumes dist: "distinct (map fst (registered_routers a))"
      and reg: "map_of (registered_routers a) X = Some od" and new: "map_of T X = Some nd"
      and new_s: "map_of nd S = Some sn" and old_s: "map_of od S = Some osn"
      and new_p: "map_of (ports sn) P = Some p"
      and old_p: "map_of (ports osn) P = Some q" and cleared: "port_host q = None"
      and bound: "port_host p = host a" and named: "host a \<noteq> None"
      and ready: "get_port_ofport (int_br a) (port_name p) \<noteq> INVALID_OFPORT"
      and b: "budget (int_br a) = None"
  shows "\<exists>a'. sync_routers T a = (Done, a') \<and> step_ok UNIV a a' \<and>
           hosted_add p (gateway_mac sn) (get_port_ofport (int_br a) (port_name p))
             \<in> set (new_ops a a')"
proof -
  let ?ofno = "get_port_ofport (int_br a) (port_name p)"
  let ?op = "hosted_add p (gateway_mac sn) ?ofno"
  let ?dels = "filter (\<lambda>dvr_id. map_of T dvr_id = None) (dict_keys (registered_routers a))"
  let ?upds = "filter (\<lambda>dvr_id. map_of T dvr_id \<noteq> None) (dict_keys (registered_routers a))"
  let ?C = "\<lambda>dvr_id (sync_dvrs, a).
              case map_of sync_dvrs dvr_id of
                None \<Rightarrow> (Raised KeyError, (sync_dvrs, a))
              | Some new_dvr \<Rightarrow>
                  seq (on_local (AList.delete dvr_id))
                    (on_agent (dvr_updated dvr_id new_dvr))
                    (sync_dvrs, a)"
  let ?rest = "\<lambda>sync_dvrs. for_each (\<lambda>(dvr_id, new_dvr). dvr_added dvr_id new_dvr) sync_dvrs"
  obtain h where h: "host a = Some h" using named by auto
  have keys: "map_of (registered_routers a) i \<noteq> None"
    if "i \<in> set (dict_keys (registered_routers a))" for i
    using that by (simp add: dict_keys_def map_of_eq_None_iff)
  have dd: "distinct ?dels" and du: "distinct ?upds" using dist by (simp_all add: dict_keys_def)
  have rd: "\<forall>i \<in> set ?dels. map_of (registered_routers a) i \<noteq> None" using keys by simp
  from delete_loop[OF dd rd b] obtain a1 where
    1: "for_each dvr_deleted ?dels a = (Done, a1)" and s1: "step_ok (set ?dels) a a1" by blast
  have same: "map_of (registered_routers a1) i = map_of (registered_routers a) i"
    if "map_of T i \<noteq> None" for i
    using step_ok_reg[OF s1, of i] that by simp
  have xu: "X \<in> set ?upds"
    using reg new by (auto simp: dict_keys_def dest: map_of_SomeD intro: rev_image_eqI)
  have ru: "\<forall>i \<in> set ?upds. map_of T i \<noteq> None \<and> map_of (registered_routers a1) i \<noteq> None"
    using keys same by simp
  have rx: "map_of (registered_routers a1) X = Some od" using same[of X] new reg by simp
  have h1: "host a1 = Some h" using step_ok_host[OF s1] h by simp
  have o1: "get_port_ofport (int_br a1) (port_name p) = ?ofno" by (rule step_ok_ofport[OF s1])
  have bh: "port_host p = Some h" using bound h by simp
  from target_update_loop[OF new_s old_s new_p old_p cleared bh ready du xu ru new rx h1 o1
      step_ok_budget[OF s1]]
  obtain c2 a2 where
    2: "for_each ?C ?upds (T, a1) = (Done, (c2, a2))" and s2: "step_ok (set ?upds) a1 a2"
    and o2: "?op \<in> set (new_ops a1 a2)" by blast
  have "runs UNIV (?rest c2)"
    by (rule runs_for_each) (auto intro: runs_mono[OF runs_dvr_added])
  from runsD[OF this step_ok_budget[OF s2]] obtain a3 where
    3: "?rest c2 a2 = (Done, a3)" and s3: "step_ok UNIV a2 a3" by blast
  have u1: "step_ok UNIV a a1" by (rule step_ok_mono[OF s1]) simp
  have u2: "step_ok UNIV a1 a2" by (rule step_ok_mono[OF s2]) simp
  have run: "sync_routers T a = (Done, a3)"
    using 1 2 3 unfolding sync_routers_def Let_def by (simp add: seq_def with_local_def)
  from reach_second[OF u1 u2 o2] have "step_ok UNIV a a2" "?op \<in> set (new_ops a a2)"
    by simp_all
  from reach_first[OF this s3] run show ?thesis by blast
qed

lemma phys_add_flow_ok:
  "list_all (\<lambda>nb. budget (snd nb) = None) brs \<Longrightarrow> \<exists>brs'. phys_add_flow k brs = (Done, brs')"
proof (induction brs)
  case Nil
  show ?case by simp
next
  case (Cons x brs)
  obtain n br where x: "x = (n, br)" by (cases x)
  from Cons obtain brs' where "phys_add_flow k brs = (Done, brs')" by auto
  then show ?case using Cons.prems x by (simp add: br_issue_def)
qed

lemma sync_self_mac_runs:
  assumes b: "budget (int_br a) = None"
      and phys: "list_all (\<lambda>nb. budget (snd nb) = None) brs"
  shows "\<exists>brs1 a1. sync_self_mac mac_rep brs a = (Done, brs1, a1) \<and> step_ok {} a a1 \<and>
           registered_routers a1 = registered_routers a \<and> last_sync a1 = last_sync a \<and>
           sync_interval a1 = sync_interval a"
proof (cases "truthy (dvr_mac_address a)")
  case True
  then show ?thesis using b by (simp add: sync_self_mac_set step_ok_refl)
next
  case False
  let ?g = "get_dvr_mac_address mac_rep a"
  have bg: "budget (int_br ?g) = None" using b by simp
  have "\<exists>ops. set_src_to_dvr ?g = (Done, issued ops ?g)"
  proof (cases "truthy (dvr_mac_address ?g)")
    case True
    then show ?thesis
      by (simp add: set_src_to_dvr_def Let_def int_add_flow_ok[OF bg]) (rule exI, rule refl)
  next
    case False
    then have "set_src_to_dvr ?g = (Done, issued [] ?g)" by (simp add: set_src_to_dvr_def)
    then show ?thesis by blast
  qed
  then obtain ops where 1: "set_src_to_dvr ?g = (Done, issued ops ?g)" by blast
  have "\<exists>brs1. setup_dvr_flows_on_phys_brs (issued ops ?g) brs = (Done, brs1)"
    unfolding setup_dvr_flows_on_phys_brs_def using phys_add_flow_ok[OF phys] by simp
  then obtain brs1 where 2: "setup_dvr_flows_on_phys_brs (issued ops ?g) brs = (Done, brs1)"
    by blast
  have run: "sync_self_mac mac_rep brs a = (Done, brs1, issued ops ?g)"
    using False 1 2 by (simp add: sync_self_mac_def)
  have "step_ok {} a (issued ops ?g)" using b by (simp add: step_ok_def)
  with run show ?thesis by simp
qed

lemma target_sync_dvr_ports:
  assumes dist: "distinct (map fst (registered_routers a))"
      and reg: "map_of (registered_routers a) X = Some od" and new: "map_of T X = Some nd"
      and new_s: "map_of nd S = Some sn" and old_s: "map_of od S = Some osn"
      and new_p: "map_of (ports sn) P = Some p"
      and old_p: "map_of (ports osn) P = Some q" and cleared: "port_host q = None"
      and bound: "port_host p = host a" and named: "host a \<noteq> None"
      and ready: "get_port_ofport (int_br a) (port_name p) \<noteq> INVALID_OFPORT"
      and b: "budget (int_br a) = None"
      and phys: "list_all (\<lambda>nb. budget (snd nb) = None) brs"
      and due: "sync_interval a \<le> now - last_sync a"
  shows "\<exists>brs' a'. sync_dvr_ports mac_rep (Returns T) now now_end brs a = (Done, brs', a') \<and>
           hosted_add p (gateway_mac sn) (get_port_ofport (int_br a) (port_name p))
             \<in> set (new_ops a a')"
proof -
  let ?op = "hosted_add p (gateway_mac sn) (get_port_ofport (int_br a) (port_name p))"
  from sync_self_mac_runs[OF b phys, of mac_rep] obtain brs1 a1 where
    1: "sync_self_mac mac_rep brs a = (Done, brs1, a1)" and s1: "step_ok {} a a1"
    and r1: "registered_routers a1 = registered_routers a"
    and t1: "last_sync a1 = last_sync a" "sync_interval a1 = sync_interval a" by blast
  let ?a = "a1\<lparr>plugin_rpc := plugin_rpc a1 @ [GetOpenflowEwDvrs]\<rparr>"
  have s2: "step_ok {} a1 ?a" using step_ok_budget[OF s1] by (simp add: step_ok_def)
  have s12: "step_ok {} a ?a" by (rule step_ok_trans[OF s1 s2])
  have "\<exists>a'. sync_routers T ?a = (Done, a') \<and> step_ok UNIV ?a a' \<and>
           hosted_add p (gateway_mac sn) (get_port_ofport (int_br ?a) (port_name p))
             \<in> set (new_ops ?a a')"
    using dist reg new new_s old_s new_p old_p cleared bound named ready r1
      step_ok_host[OF s12] step_ok_ofport[OF s12] step_ok_budget[OF s12]
    by (intro target_sync_routers[where od = od and nd = nd and osn = osn and q = q and S = S
          and P = P and X = X]) simp_all
  then obtain a3 where
    3: "sync_routers T ?a = (Done, a3)" and s3: "step_ok UNIV ?a a3"
    and o3: "?op \<in> set (new_ops ?a a3)" using step_ok_ofport[OF s12] by auto
  have run: "sync_dvr_ports mac_rep (Returns T) now now_end brs a =
               (Done, brs1, a3\<lparr>last_sync := now_end\<rparr>)"
    using 1 3 due t1 by (simp add: sync_dvr_ports_def Let_def)
  from reach_second[OF step_ok_mono[OF s12] s3 o3]
  have "?op \<in> set (new_ops a a3)" by simp
  then have "?op \<in> set (new_ops a (a3\<lparr>last_sync := now_end\<rparr>))" by (simp add: new_ops_def)
  with run show ?thesis by blast
qed


text \<open>
  C7 (as amended). For a port whose host is this agent's host and whose ofport is
  \<open>INVALID_OFPORT\<close>, \<open>_add_flows_to_hosted_port\<close> issues no flow operation, sets the host of
  the port recorded in \<open>registered_routers\<close> to \<open>None\<close>, and returns normally, so that
  whatever statement follows it runs. When the agent has a host name, a later
  \<open>sync_dvr_ports\<close> that is due, on bridges that accept the operations, and that fetches a
  topology in which the port is bound to this host, with the port attached by then, returns
  normally and has installed the Table-2 hosted-delivery flow of the port: the record with
  host \<open>None\<close> makes the port count as moved into the host.
\<close>

theorem add_flows_to_hosted_port_not_ready:
  assumes "port_host port = host a"
      and "get_port_ofport (int_br a) (port_name port) = INVALID_OFPORT"
      and "map_of (registered_routers a) dvr_id = Some d"
      and "map_of d subnet_id = Some sn"
      and "map_of (ports sn) port_id = Some port"
  shows "(\<exists>a'. add_flows_to_hosted_port (dvr_id, subnet_id, port_id) port gw a = (Done, a') \<and>
           int_br a' = int_br a \<and>
           (\<exists>d' sn'. map_of (registered_routers a') dvr_id = Some d' \<and>
                      map_of d' subnet_id = Some sn' \<and>
                      map_of (ports sn') port_id = Some (port\<lparr>port_host := None\<rparr>)) \<and>
           (\<forall>g. seq (add_flows_to_hosted_port (dvr_id, subnet_id, port_id) port gw) g a = g a')) \<and>
         (host a \<noteq> None \<and> host b = host a \<and>
          distinct (map fst (registered_routers b)) \<and>
          map_of (registered_routers b) dvr_id = Some od \<and> map_of od subnet_id = Some osn \<and>
          map_of (ports osn) port_id = Some q \<and> port_host q = None \<and>
          map_of T dvr_id = Some nd \<and> map_of nd subnet_id = Some nsn \<and>
          map_of (ports nsn) port_id = Some p \<and> port_host p = host b \<and>
          get_port_ofport (int_br b) (port_name p) \<noteq> INVALID_OFPORT \<and>
          budget (int_br b) = None \<and> list_all (\<lambda>nb. budget (snd nb) = None) brs \<and>
          sync_interval b \<le> now - last_sync b \<longrightarrow>
          (\<exists>brs' b'. sync_dvr_ports mac_rep (Returns T) now now_end brs b = (Done, brs', b') \<and>
             hosted_add p (gateway_mac nsn) (get_port_ofport (int_br b) (port_name p))
               \<in> set (new_ops b b')))"
proof (intro conjI impI)
  show "\<exists>a'. add_flows_to_hosted_port (dvr_id, subnet_id, port_id) port gw a = (Done, a') \<and>
           int_br a' = int_br a \<and>
           (\<exists>d' sn'. map_of (registered_routers a') dvr_id = Some d' \<and>
                      map_of d' subnet_id = Some sn' \<and>
                      map_of (ports sn') port_id = Some (port\<lparr>port_host := None\<rparr>)) \<and>
           (\<forall>g. seq (add_flows_to_hosted_port (dvr_id, subnet_id, port_id) port gw) g a = g a')"
    using assms
    by (auto simp: add_flows_to_hosted_port_def clear_port_host_def map_of_map_entry seq_def)
next
  assume h: "host a \<noteq> None \<and> host b = host a \<and>
          distinct (map fst (registered_routers b)) \<and>
          map_of (registered_routers b) dvr_id = Some od \<and> map_of od subnet_id = Some osn \<and>
          map_of (ports osn) port_id = Some q \<and> port_host q = None \<and>
          map_of T dvr_id = Some nd \<and> map_of nd subnet_id = Some nsn \<and>
          map_of (ports nsn) port_id = Some p \<and> port_host p = host b \<and>
          get_port_ofport (int_br b) (port_name p) \<noteq> INVALID_OFPORT \<and>
          budget (int_br b) = None \<and> list_all (\<lambda>nb. budget (snd nb) = None) brs \<and>
          sync_interval b \<le> now - last_sync b"
  then have named: "host b \<noteq> None" by simp
  from h show "\<exists>brs' b'. sync_dvr_ports mac_rep (Returns T) now now_end brs b = (Done, brs', b') \<and>
             hosted_add p (gateway_mac nsn) (get_port_ofport (int_br b) (port_name p))
               \<in> set (new_ops b b')"
    by (intro target_sync_dvr_ports[where od = od and nd = nd and osn = osn and q = q
          and S = subnet_id and P = port_id and X = dvr_id] named) simp_all
qed

lemma ex_deferred_eq:
  "ex_deferred =
     ex_agent\<lparr>registered_routers :=
       [(''R1'', [(''S1'', ex_S1\<lparr>ports := [(''P1'', ex_P1\<lparr>port_host := None\<rparr>)]\<rparr>),
                  (''S2'', ex_S2)])]\<rparr>"
  by (simp add: ex_deferred_def ex_defs clear_port_host_def)

text \<open>The theorem applies to port P1 of the example, not attached at first, and to the tick
  that follows once it is attached.\<close>

theorem add_flows_to_hosted_port_not_ready_witness:
  "port_host ex_P1 = host ex_notready \<and>
   get_port_ofport (int_br ex_notready) (port_name ex_P1) = INVALID_OFPORT \<and>
   map_of (registered_routers ex_notready) ''R1'' = Some ex_R1 \<and>
   map_of ex_R1 ''S1'' = Some ex_S1 \<and> map_of (ports ex_S1) ''P1'' = Some ex_P1 \<and>
   (\<exists>a'. add_flows_to_hosted_port (''R1'', ''S1'', ''P1'') ex_P1 ''aa:1'' ex_notready = (Done, a') \<and>
         int_br a' = int_br ex_notready \<and>
         (\<exists>d' sn'. map_of (registered_routers a') ''R1'' = Some d' \<and>
                    map_of d' ''S1'' = Some sn' \<and>
                    map_of (ports sn') ''P1'' = Some (ex_P1\<lparr>port_host := None\<rparr>))) \<and>
   host ex_notready \<noteq> None \<and> host ex_deferred = host ex_notready \<and>
   port_host ex_P1 = host ex_deferred \<and>
   get_port_ofport (int_br ex_deferred) (port_name ex_P1) = 7 \<and>
   (\<exists>brs' b'. sync_dvr_ports Fails (Returns ex_T) 1000 1001 [] ex_deferred = (Done, brs', b') \<and>
      hosted_add ex_P1 ''aa:1'' 7 \<in> set (new_ops ex_deferred b'))"
proof -
  have h1: "port_host ex_P1 = host ex_notready" by (simp add: ex_defs)
  have h2: "get_port_ofport (int_br ex_notready) (port_name ex_P1) = INVALID_OFPORT"
    by (simp add: ex_defs get_port_ofport_def)
  have h3: "map_of (registered_routers ex_notready) ''R1'' = Some ex_R1"
    by (simp add: ex_notready_def ex_T_def)
  have h4: "map_of ex_R1 ''S1'' = Some ex_S1" by (simp add: ex_R1_def)
  have h5: "map_of (ports ex_S1) ''P1'' = Some ex_P1" by (simp add: ex_S1_def)
  have g1: "host ex_notready \<noteq> None" by (simp add: ex_defs)
  have g2: "host ex_deferred = host ex_notready" by (simp add: ex_deferred_eq ex_defs)
  have g3: "distinct (map fst (registered_routers ex_deferred))" by (simp add: ex_deferred_eq)
  have g4: "map_of (registered_routers ex_deferred) ''R1'' =
              Some [(''S1'', ex_S1\<lparr>ports := [(''P1'', ex_P1\<lparr>port_host := None\<rparr>)]\<rparr>),
                    (''S2'', ex_S2)]"
    by (simp add: ex_deferred_eq)
  have g5: "map_of [(''S1'', ex_S1\<lparr>ports := [(''P1'', ex_P1\<lparr>port_host := None\<rparr>)]\<rparr>),
                    (''S2'', ex_S2)] ''S1'' =
              Some (ex_S1\<lparr>ports := [(''P1'', ex_P1\<lparr>port_host := None\<rparr>)]\<rparr>)"
    by simp
  have g6: "map_of (ports (ex_S1\<lparr>ports := [(''P1'', ex_P1\<lparr>port_host := None\<rparr>)]\<rparr>)) ''P1'' =
              Some (ex_P1\<lparr>port_host := None\<rparr>)"
    by simp
  have g7: "port_host (ex_P1\<lparr>port_host := None\<rparr>) = None" by simp
  have g8: "map_of ex_T ''R1'' = Some ex_R1" by (simp add: ex_T_def)
  have g9: "port_host ex_P1 = host ex_deferred" by (simp add: ex_deferred_eq ex_defs)
  have o: "get_port_ofport (int_br ex_deferred) (port_name ex_P1) = 7"
    by (simp add: ex_deferred_eq ex_defs get_port_ofport_def)
  have g10: "get_port_ofport (int_br ex_deferred) (port_name ex_P1) \<noteq> INVALID_OFPORT"
    by (simp add: o INVALID_OFPORT_def)
  have g11: "budget (int_br ex_deferred) = None" by (simp add: ex_deferred_eq ex_defs)
  have g12: "list_all (\<lambda>nb. budget (snd nb) = None) ([] :: (string \<times> bridge) list)" by simp
  have g13: "sync_interval ex_deferred \<le> 1000 - last_sync ex_deferred"
    by (simp add: ex_deferred_eq ex_defs)
  have gw: "gateway_mac ex_S1 = ''aa:1''" by (simp add: ex_S1_def)
  from add_flows_to_hosted_port_not_ready [OF h1 h2 h3 h4 h5, of "''aa:1''" ex_deferred
      "[(''S1'', ex_S1\<lparr>ports := [(''P1'', ex_P1\<lparr>port_host := None\<rparr>)]\<rparr>), (''S2'', ex_S2)]"
      "ex_S1\<lparr>ports := [(''P1'', ex_P1\<lparr>port_host := None\<rparr>)]\<rparr>" "ex_P1\<lparr>port_host := None\<rparr>"
      ex_T ex_R1 ex_S1 ex_P1 "[]" 1000 Fails 1001]
    h1 h2 h3 h4 h5 g1 g2 g3 g4 g5 g6 g7 g8 g9 g10 g11 g12 g13
  have "(\<exists>a'. add_flows_to_hosted_port (''R1'', ''S1'', ''P1'') ex_P1 ''aa:1'' ex_notready = (Done, a') \<and>
         int_br a' = int_br ex_notready \<and>
         (\<exists>d' sn'. map_of (registered_routers a') ''R1'' = Some d' \<and>
                    map_of d' ''S1'' = Some sn' \<and>
                    map_of (ports sn') ''P1'' = Some (ex_P1\<lparr>port_host := None\<rparr>))) \<and>
        (\<exists>brs' b'. sync_dvr_ports Fails (Returns ex_T) 1000 1001 [] ex_deferred = (Done, brs', b') \<and>
           hosted_add ex_P1 ''aa:1'' 7 \<in> set (new_ops ex_deferred b'))"
    unfolding o gw by blast
  with h1 h2 h3 h4 h5 g1 g2 g9 o show ?thesis by blast
qed

text \<open>
  C7 as stated fails for an agent constructed without a host: a port without host binding
  has the host of the agent, the host that is cleared is \<open>None\<close> already, and at the next
  tick, with the port attached, \<open>_port_moved_into_host\<close> is false: nothing is installed.
\<close>

theorem add_flows_to_hosted_port_not_ready_counterexample:
  "host ex_nohost = None \<and> port_host ex_P0 = host ex_nohost \<and>
   get_port_ofport (int_br ex_nohost) (port_name ex_P0) = INVALID_OFPORT \<and>
   fst (sync_dvr_ports Fails (Returns ex_T0) 1000 1001 [] ex_nohost) = Done \<and>
   flows (int_br ex_nohost1) =
     [AddFlow (kw\<lparr>priority := Some 2, dl_dst := Some ''aa:1'', proto := Some ''ip'',
                  ip_dst := Some ''10.0.2.0/24'', actions := Some ''resubmit(,1)''\<rparr>),
      AddFlow (kw\<lparr>table := Some 1, priority := Some 2, dl_dst := Some ''aa:2'',
                  proto := Some ''ip'', ip_dst := Some ''10.0.1.5'',
                  actions := Some ''mod_dl_dst:m1,mod_vlan_vid:101,resubmit(,2)''\<rparr>),
      AddFlow (kw\<lparr>priority := Some 2, dl_dst := Some ''aa:2'', proto := Some ''ip'',
                  ip_dst := Some ''10.0.1.0/24'', actions := Some ''resubmit(,1)''\<rparr>)] \<and>
   registered_routers ex_nohost1 = ex_T0 \<and>
   port_host ex_P0 = host ex_nohost2 \<and>
   get_port_ofport (int_br ex_nohost2) (port_name ex_P0) = 7 \<and>
   budget (int_br ex_nohost2) = None \<and>
   sync_interval ex_nohost2 \<le> 2000 - last_sync ex_nohost2 \<and>
   fst (sync_dvr_ports Fails (Returns ex_T0) 2000 2001 [] ex_nohost2) = Done \<and>
   flows (int_br (snd (snd (sync_dvr_ports Fails (Returns ex_T0) 2000 2001 [] ex_nohost2)))) =
     flows (int_br ex_nohost2)"
  by (simp add: ex_nohost2_def ex_nohost1_def ex_nohost_def ex_T0_def ex_P0_def ex_defs sync_defs
      run_defs)

end
